theory Spec2Isabelle
  imports Complex_Main "HOL-Library.AList"
begin

section \<open>Numbers\<close>

text \<open>
  The program computes with Python and NumPy floats. The model keeps the special values
  that decide which rows survive (a division by zero gives an infinity or a NaN, and every
  comparison with a NaN is false) and computes finite values exactly, over the reals:
  rounding, overflow and the sign of zero are not modelled.
\<close>

datatype pyfloat = Fin real | PInf | NInf | NaN

fun fsign :: "pyfloat \<Rightarrow> int" where
  "fsign (Fin x) = (if 0 < x then 1 else if x < 0 then -1 else 0)"
| "fsign PInf = 1"
| "fsign NInf = -1"
| "fsign NaN = 0"

definition signed_inf :: "int \<Rightarrow> pyfloat" where
  "signed_inf s = (if 0 < s then PInf else if s < 0 then NInf else NaN)"

fun fmul :: "pyfloat \<Rightarrow> pyfloat \<Rightarrow> pyfloat" where
  "fmul NaN b = NaN"
| "fmul a NaN = NaN"
| "fmul (Fin x) (Fin y) = Fin (x * y)"
| "fmul a b = signed_inf (fsign a * fsign b)"

fun fdiv :: "pyfloat \<Rightarrow> pyfloat \<Rightarrow> pyfloat" where
  "fdiv NaN b = NaN"
| "fdiv a NaN = NaN"
| "fdiv (Fin x) (Fin y) = (if y = 0 then signed_inf (fsign (Fin x)) else Fin (x / y))"
| "fdiv (Fin x) b = Fin 0"
| "fdiv a (Fin y) = signed_inf (fsign a * (if y < 0 then -1 else 1))"
| "fdiv a b = NaN"

fun fle :: "pyfloat \<Rightarrow> pyfloat \<Rightarrow> bool" where
  "fle NaN b = False"
| "fle a NaN = False"
| "fle (Fin x) (Fin y) = (x \<le> y)"
| "fle NInf b = True"
| "fle a PInf = True"
| "fle a b = False"

fun flt :: "pyfloat \<Rightarrow> pyfloat \<Rightarrow> bool" where
  "flt NaN b = False"
| "flt a NaN = False"
| "flt (Fin x) (Fin y) = (x < y)"
| "flt PInf b = False"
| "flt a NInf = False"
| "flt a b = True"

fun fadd :: "pyfloat \<Rightarrow> pyfloat \<Rightarrow> pyfloat" where
  "fadd NaN b = NaN"
| "fadd a NaN = NaN"
| "fadd (Fin x) (Fin y) = Fin (x + y)"
| "fadd PInf NInf = NaN"
| "fadd NInf PInf = NaN"
| "fadd (Fin x) b = b"
| "fadd a b = a"

fun fneg :: "pyfloat \<Rightarrow> pyfloat" where
  "fneg (Fin x) = Fin (- x)"
| "fneg PInf = NInf"
| "fneg NInf = PInf"
| "fneg NaN = NaN"

definition fsub :: "pyfloat \<Rightarrow> pyfloat \<Rightarrow> pyfloat" where
  "fsub a b = fadd a (fneg b)"

definition fge :: "pyfloat \<Rightarrow> pyfloat \<Rightarrow> bool" where
  "fge a b = fle b a"

definition fgt :: "pyfloat \<Rightarrow> pyfloat \<Rightarrow> bool" where
  "fgt a b = flt b a"

section \<open>Characters and decimal text\<close>

text \<open>
  Strings are lists of 8-bit characters, read as the code points below 256. There the
  regular-expression class of white space holds the code points 9 to 13, 28 to 32, 133 and
  160, and the class of digits holds the ten ASCII digits.
\<close>

definition is_space :: "char \<Rightarrow> bool" where
  "is_space c = (of_char c \<in> set [9, 10, 11, 12, 13, 28, 29, 30, 31, 32, 133, 160 :: nat])"

definition is_digit :: "char \<Rightarrow> bool" where
  "is_digit c = (c \<in> set ''0123456789'')"

definition digit_val :: "char \<Rightarrow> nat" where
  "digit_val c = of_char c - 48"

definition nat_of_digits :: "string \<Rightarrow> nat" where
  "nat_of_digits ds = foldl (\<lambda>a c. 10 * a + digit_val c) 0 ds"

definition split_sign :: "string \<Rightarrow> real \<times> string" where
  "split_sign s =
     (case s of
        [] \<Rightarrow> (1, [])
      | c # r \<Rightarrow> if c = CHR ''-'' then (-1, r) else if c = CHR ''+'' then (1, r) else (1, s))"

text \<open>
  Python's built-in \<open>float\<close> on text: an optional sign, digits with an optional point
  (at least one digit in all), and an optional exponent. Text outside this grammar is
  rejected with a ValueError (\<open>None\<close>); the built-in also reads \<open>inf\<close>, \<open>nan\<close>,
  underscores between digits and surrounding white space, which the model leaves out.
\<close>

definition py_float :: "string \<Rightarrow> real option" where
  "py_float s =
     (let (sg, r1) = split_sign s;
          ip = takeWhile is_digit r1;
          r2 = dropWhile is_digit r1;
          (fp, r3) = (case r2 of
                        [] \<Rightarrow> ([], [])
                      | c # r \<Rightarrow> if c = CHR ''.''
                                then (takeWhile is_digit r, dropWhile is_digit r)
                                else ([], r2));
          m = real (nat_of_digits ip) + real (nat_of_digits fp) / 10 ^ length fp
      in if ip = [] \<and> fp = [] then None
         else (case r3 of
                 [] \<Rightarrow> Some (sg * m)
               | c # r4 \<Rightarrow>
                   if c = CHR ''e'' \<or> c = CHR ''E'' then
                     (let (es, r5) = split_sign r4
                      in if r5 \<noteq> [] \<and> list_all is_digit r5
                         then Some (if es < 0 then sg * m / 10 ^ nat_of_digits r5
                                    else sg * m * 10 ^ nat_of_digits r5)
                         else None)
                   else None))"

section \<open>Errors\<close>

text \<open>
  The exceptions of the program and of the library calls it makes. \<open>Unsupported\<close> is not
  one of them: it marks text that \<open>DataFrame.eval\<close> would read as an expression of a kind
  the model does not read, and says nothing about what the program does with it.
\<close>

datatype error =
    InvalidConditionFormat string
  | InvalidFormattedValue
  | InvalidUnit
  | FloatValueError
  | ConditionsNotSufficient
  | MissingColumn string
  | SyntaxError
  | Unsupported string

section \<open>parse_condition\<close>

text \<open>
  \<open>re.match\<close> with the pattern \<open>(\S+)\s*(=|<|>)\s*(\S+)\<close> anchors at the start of the text
  only. The first group is greedy: it takes the longest run of non-space characters and
  gives characters back one at a time until the rest of the pattern matches. After the
  first group the match is forced: white space, one operator character, white space, and
  the longest non-empty run of non-space characters.
\<close>

definition match_rest :: "string \<Rightarrow> (string \<times> string) option" where
  "match_rest s =
     (case dropWhile is_space s of
        [] \<Rightarrow> None
      | c # r \<Rightarrow>
          if c \<in> set ''=<>'' then
            (let tok = takeWhile (\<lambda>c. \<not> is_space c) (dropWhile is_space r)
             in if tok = [] then None else Some ([c], tok))
          else None)"

fun backtrack :: "string \<Rightarrow> nat \<Rightarrow> (string \<times> string \<times> string) option" where
  "backtrack s 0 = None"
| "backtrack s (Suc k) =
     (case match_rest (drop (Suc k) s) of
        Some (opr, rhs) \<Rightarrow> Some (take (Suc k) s, opr, rhs)
      | None \<Rightarrow> backtrack s k)"

definition parse_condition :: "string \<Rightarrow> error + (string \<times> string \<times> string)" where
  "parse_condition condition =
     (case backtrack condition (length (takeWhile (\<lambda>c. \<not> is_space c) condition)) of
        Some groups \<Rightarrow> Inr groups
      | None \<Rightarrow> Inl (InvalidConditionFormat condition))"

section \<open>parse_from_number\<close>

definition units :: "(string \<times> real) list" where
  "units = [(''T'', 10 ^ 12), (''G'', 10 ^ 9), (''M'', 10 ^ 6), (''k'', 10 ^ 3), ('''', 1),
            (''m'', 1 / 10 ^ 3), (''u'', 1 / 10 ^ 6), (''n'', 1 / 10 ^ 9), (''p'', 1 / 10 ^ 12),
            (''f'', 1 / 10 ^ 15)]"

definition unit_group :: "string \<Rightarrow> string" where
  "unit_group r = (case r of [] \<Rightarrow> [] | c # _ \<Rightarrow> if c \<in> set ''TGMkmunpf'' then [c] else [])"

text \<open>
  \<open>re.match\<close> with \<open>([-+]?\d*\.?\d+)([TGMkmunpf]?)\<close>, again anchored at the start only.
  A sign is taken when there is one. The digits before the point are greedy; when a point
  and at least one digit follow them, the first group runs to the end of those digits,
  otherwise it is the leading digits alone (the last of them given back to \<open>\d+\<close>), and
  without any leading digit there is no match. The second group is the next character
  when it is a unit letter, and empty otherwise.
\<close>

definition match_number :: "string \<Rightarrow> (string \<times> string) option" where
  "match_number s =
     (let (sg, r1) = (case s of
                        [] \<Rightarrow> ([], [])
                      | c # r \<Rightarrow> if c \<in> set ''-+'' then ([c], r) else ([], s));
          ds = takeWhile is_digit r1;
          r2 = dropWhile is_digit r1;
          frac = (case r2 of
                    [] \<Rightarrow> []
                  | c # r \<Rightarrow> if c = CHR ''.'' then takeWhile is_digit r else [])
      in if frac \<noteq> [] then Some (sg @ ds @ ''.'' @ frac, unit_group (drop (Suc (length frac)) r2))
         else if ds \<noteq> [] then Some (sg @ ds, unit_group r2)
         else None)"

definition parse_from_number :: "string \<Rightarrow> error + real" where
  "parse_from_number formatted_value =
     (case match_number formatted_value of
        None \<Rightarrow> Inl InvalidFormattedValue
      | Some (g1, unit) \<Rightarrow>
          (case py_float g1 of
             None \<Rightarrow> Inl FloatValueError
           | Some number \<Rightarrow>
               (case map_of units unit of
                  None \<Rightarrow> Inl InvalidUnit
                | Some scale \<Rightarrow> Inr (number * scale))))"

section \<open>Tables\<close>

text \<open>
  A DataFrame is a list of rows. The columns the program names in its own text
  (\<open>W\<close>, \<open>L\<close>, \<open>gm\<close>, \<open>gmb\<close>, \<open>rout\<close>, \<open>cgg\<close>, \<open>id\<close>) are fields; every
  other numeric column, loaded or added later, is an entry of \<open>extra\<close>, in column order.
  The loaded table has \<open>W\<close> as text with an SI suffix, every table after that as a number.
\<close>

record 'w row =
  W :: 'w
  L :: pyfloat
  gm :: pyfloat
  gmb :: pyfloat
  rout :: pyfloat
  cgg :: pyfloat
  id_col :: pyfloat
  extra :: "(string \<times> pyfloat) list"

text \<open>
  The \<open>condition\<close> column holds the name of the variable a row was resized by; \<open>None\<close> is
  the missing value of a row that has none.
\<close>

record trow = "pyfloat row" +
  condition :: "string option"

record crow = trow +
  met_specs :: bool

text \<open>\<open>df[name]\<close> for one row: a field, or else an entry of \<open>extra\<close>.\<close>

definition cell :: "string \<Rightarrow> (pyfloat, 'a) row_scheme \<Rightarrow> pyfloat option" where
  "cell name r =
     (if name = ''W'' then Some (W r)
      else if name = ''L'' then Some (L r)
      else if name = ''gm'' then Some (gm r)
      else if name = ''gmb'' then Some (gmb r)
      else if name = ''rout'' then Some (rout r)
      else if name = ''cgg'' then Some (cgg r)
      else if name = ''id'' then Some (id_col r)
      else map_of (extra r) name)"

definition column :: "string \<Rightarrow> (pyfloat, 'a) row_scheme list \<Rightarrow> error + pyfloat list" where
  "column name tbl =
     (case those (map (cell name) tbl) of
        None \<Rightarrow> Inl (MissingColumn name)
      | Some xs \<Rightarrow> Inr xs)"

text \<open>\<open>df[name] = values\<close> for a column that is not a field: replaced in place, or appended.\<close>

definition set_extra :: "string \<Rightarrow> pyfloat \<Rightarrow> ('w, 'a) row_scheme \<Rightarrow> ('w, 'a) row_scheme" where
  "set_extra name v r = r\<lparr>extra := AList.update name v (extra r)\<rparr>"

section \<open>DF_OPS\<close>

text \<open>
  The object's fields. \<open>conditional_df\<close> is \<open>0\<close> after construction (\<open>Unset\<close>); during
  a call of \<open>compute_conditional_df\<close> it is the accumulated table (\<open>Accum\<close>), then that
  table with its \<open>area\<close> column (\<open>Sized\<close>), then with its \<open>met_specs\<close> column
  (\<open>Flagged\<close>). The lists \<open>specs\<close>, \<open>proportional\<close> and \<open>inversly\<close> are set once to
  constants.
\<close>

datatype cdf = Unset | Accum "trow list" | Sized "trow list" | Flagged "crow list"

record df_ops =
  df :: "pyfloat row list"
  mod_df :: "pyfloat row list"
  conditional_df :: cdf

definition specs :: "string list" where
  "specs = [''intrinsic_gain'', ''ft'', ''area'', ''gmoverid'']"

definition proportional :: "string list" where
  "proportional = [''cgg'', ''gm'', ''gmb'', ''id'']"

definition inversly :: "string list" where
  "inversly = [''rout'']"

subsection \<open>add_specs_df\<close>

text \<open>\<open>math.pi\<close> is a float: the double nearest to \<open>\<pi>\<close>, a rational number.\<close>

definition math_pi :: real where
  "math_pi = 884279719003555 / 2 ^ 48"

definition add_spec :: "string \<Rightarrow> pyfloat row \<Rightarrow> pyfloat row" where
  "add_spec spec r =
     (if spec = ''intrinsic_gain'' then set_extra ''intrinsic_gain'' (fmul (gm r) (rout r)) r
      else if spec = ''ft'' then set_extra ''ft'' (fdiv (gm r) (fmul (Fin (2 * math_pi)) (cgg r))) r
      else if spec = ''gmoverid'' then set_extra ''gmoverid'' (fdiv (gm r) (id_col r)) r
      else r)"

definition add_specs_df :: "pyfloat row list \<Rightarrow> pyfloat row list" where
  "add_specs_df tbl = fold (\<lambda>spec m. map (add_spec spec) m) specs tbl"

subsection \<open>The constructor\<close>

fun parse_widths :: "string row list \<Rightarrow> error + pyfloat row list" where
  "parse_widths [] = Inr []"
| "parse_widths (r # rs) =
     (case parse_from_number (W r) of
        Inl e \<Rightarrow> Inl e
      | Inr w \<Rightarrow>
          (case parse_widths rs of
             Inl e \<Rightarrow> Inl e
           | Inr rs' \<Rightarrow>
               Inr (\<lparr>W = Fin w, L = L r, gm = gm r, gmb = gmb r, rout = rout r, cgg = cgg r,
                     id_col = id_col r, extra = extra r\<rparr> # rs')))"

definition init :: "string row list \<Rightarrow> error + df_ops" where
  "init loaded =
     (case parse_widths loaded of
        Inl e \<Rightarrow> Inl e
      | Inr tbl \<Rightarrow> Inr \<lparr>df = tbl, mod_df = add_specs_df tbl, conditional_df = Unset\<rparr>)"

subsection \<open>compute_conditional_df: the resizing loop\<close>

type_synonym parsed = "string \<times> string \<times> string"

fun parse_conditions :: "string list \<Rightarrow> error + parsed list" where
  "parse_conditions [] = Inr []"
| "parse_conditions (c # cs) =
     (case parse_condition c of
        Inl e \<Rightarrow> Inl e
      | Inr p \<Rightarrow>
          (case parse_conditions cs of
             Inl e \<Rightarrow> Inl e
           | Inr ps \<Rightarrow> Inr (p # ps)))"

text \<open>
  \<open>temp_copy['W'] = self.mod_df['W'].multiply(...)\<close>: the new width of every row, from
  the condition's variable and target.
\<close>

definition set_width :: "pyfloat row list \<Rightarrow> parsed \<Rightarrow> error + pyfloat row list" where
  "set_width m c =
     (case c of (v, opr, rhs) \<Rightarrow>
        if v \<in> set proportional then
          (case py_float rhs of
             None \<Rightarrow> Inl FloatValueError
           | Some t \<Rightarrow>
               (case column v m of
                  Inl e \<Rightarrow> Inl e
                | Inr xs \<Rightarrow> Inr (map2 (\<lambda>r x. r\<lparr>W := fmul (W r) (fdiv (Fin t) x)\<rparr>) m xs)))
        else if v \<in> set inversly then
          (case py_float rhs of
             None \<Rightarrow> Inl FloatValueError
           | Some t \<Rightarrow>
               (case column v m of
                  Inl e \<Rightarrow> Inl e
                | Inr xs \<Rightarrow> Inr (map2 (\<lambda>r x. r\<lparr>W := fmul (W r) (fdiv x (Fin t))\<rparr>) m xs)))
        else Inr m)"

text \<open>
  A row of \<open>temp_copy\<close> keeps its index label through the two filters, and
  \<open>temp_copy['W']/self.df['W']\<close> pairs the rows by label: a label that \<open>self.df\<close> does not
  have gives NaN.
\<close>

definition original_width :: "pyfloat row list \<Rightarrow> nat \<Rightarrow> pyfloat" where
  "original_width tbl i = (if i < length tbl then W (tbl ! i) else NaN)"

definition tag :: "string \<Rightarrow> pyfloat row \<Rightarrow> trow" where
  "tag v r = row.extend r \<lparr>condition = Some v\<rparr>"

definition rescale_proportional :: "pyfloat \<Rightarrow> trow \<Rightarrow> trow" where
  "rescale_proportional k r =
     r\<lparr>cgg := fmul (cgg r) k, gm := fmul (gm r) k, gmb := fmul (gmb r) k,
       id_col := fmul (id_col r) k\<rparr>"

definition rescale_inversly :: "pyfloat \<Rightarrow> trow \<Rightarrow> trow" where
  "rescale_inversly k r = r\<lparr>rout := fdiv (rout r) k\<rparr>"

text \<open>
  The assignment \<open>temp_copy[self.proportional] = ...\<close> goes into the filtered frame. When
  the filters have left that frame without rows, pandas gives it the index of the assigned
  value first, which has every label of \<open>self.df\<close>, and fills every cell with the missing
  value: all rows come back, with NaN in every column and no \<open>condition\<close>.
\<close>

definition missing_row :: "string list \<Rightarrow> trow" where
  "missing_row names =
     \<lparr>W = NaN, L = NaN, gm = NaN, gmb = NaN, rout = NaN, cgg = NaN, id_col = NaN,
      extra = map (\<lambda>name. (name, NaN)) names, condition = None\<rparr>"

definition adopted :: "pyfloat row list \<Rightarrow> pyfloat row list \<Rightarrow> (nat \<times> trow) list" where
  "adopted d temp =
     map (\<lambda>i. (i, missing_row (if i < length temp then map fst (extra (temp ! i)) else [])))
       [0..<length d]"

definition resized :: "df_ops \<Rightarrow> real \<Rightarrow> real \<Rightarrow> string \<Rightarrow> pyfloat row list \<Rightarrow> trow list" where
  "resized st WoverL_min Wmax v temp =
     (let t1 = map (\<lambda>(i, r). (i, tag v r)) (enumerate 0 temp);
          t2 = filter (\<lambda>(i, r). flt (W r) (Fin Wmax)) t1;
          t3 = filter (\<lambda>(i, r). fgt (fdiv (W r) (L r)) (Fin WoverL_min)) t2;
          t3' = (if t3 = [] then adopted (df st) temp else t3);
          t4 = map (\<lambda>(i, r). (i, rescale_proportional (fdiv (W r) (original_width (df st) i)) r)) t3';
          t5 = map (\<lambda>(i, r). (i, rescale_inversly (fdiv (W r) (original_width (df st) i)) r)) t4
      in map snd t5)"

fun resize_loop ::
  "df_ops \<Rightarrow> real \<Rightarrow> real \<Rightarrow> parsed list \<Rightarrow> trow list \<Rightarrow> bool \<Rightarrow> error option \<times> trow list \<times> bool"
where
  "resize_loop st WoverL_min Wmax [] acc flag = (None, acc, flag)"
| "resize_loop st WoverL_min Wmax (c # cs) acc flag =
     (case set_width (mod_df st) c of
        Inl e \<Rightarrow> (Some e, acc, flag)
      | Inr temp \<Rightarrow>
          if fst c \<in> set (proportional @ inversly)
          then resize_loop st WoverL_min Wmax cs (acc @ resized st WoverL_min Wmax (fst c) temp) True
          else resize_loop st WoverL_min Wmax cs acc flag)"

subsection \<open>compute_conditional_df: area and met_specs\<close>

definition add_area :: "trow \<Rightarrow> trow" where
  "add_area r = set_extra ''area'' (fmul (W r) (L r)) r"

definition flagged :: "bool \<Rightarrow> trow \<Rightarrow> crow" where
  "flagged b r = trow.extend r \<lparr>met_specs = b\<rparr>"

text \<open>
  \<open>DataFrame.eval\<close> gets the two sides of a comparison as text and reads them as Python
  expressions. The model reads two kinds of operand. A number in the grammar of
  \<open>py_float\<close> is a Python literal with the same value, except that an integer written
  with a leading zero (and not all zeros) is a syntax error. A name that is an identifier
  and a numeric column of the table is that column. Anything else (another kind of
  expression, a name that is no column of the rows, a keyword, the columns \<open>condition\<close>
  and \<open>met_specs\<close>, a name of an \<open>extra\<close> column when the table has no row to show it) is
  \<open>Unsupported\<close>.
\<close>

datatype operand = Number real | Values "pyfloat list"

definition is_name_start :: "char \<Rightarrow> bool" where
  "is_name_start c = (c \<in> set ''abcdefghijklmnopqrstuvwxyzABCDEFGHIJKLMNOPQRSTUVWXYZ_'')"

definition is_identifier :: "string \<Rightarrow> bool" where
  "is_identifier s =
     (case s of
        [] \<Rightarrow> False
      | c # r \<Rightarrow> is_name_start c \<and> list_all (\<lambda>c. is_name_start c \<or> is_digit c) r)"

definition reserved :: "string list" where
  "reserved =
     [''False'', ''None'', ''True'', ''and'', ''as'', ''assert'', ''async'', ''await'', ''break'',
      ''class'', ''continue'', ''def'', ''del'', ''elif'', ''else'', ''except'', ''finally'', ''for'',
      ''from'', ''global'', ''if'', ''import'', ''in'', ''is'', ''lambda'', ''nonlocal'', ''not'', ''or'',
      ''pass'', ''raise'', ''return'', ''try'', ''while'', ''with'', ''yield'',
      ''condition'', ''met_specs'']"

definition field_names :: "string list" where
  "field_names = [''W'', ''L'', ''gm'', ''gmb'', ''rout'', ''cgg'', ''id'']"

definition leading_zero_int :: "string \<Rightarrow> bool" where
  "leading_zero_int s =
     (let body = snd (split_sign s)
      in list_all is_digit body \<and> 1 < length body \<and>
         (case body of [] \<Rightarrow> False | c # r \<Rightarrow> c = CHR ''0'') \<and>
         \<not> list_all (\<lambda>c. c = CHR ''0'') body)"

definition eval_operand :: "(pyfloat, 'a) row_scheme list \<Rightarrow> string \<Rightarrow> error + operand" where
  "eval_operand tbl s =
     (case py_float s of
        Some x \<Rightarrow> if leading_zero_int s then Inl SyntaxError else Inr (Number x)
      | None \<Rightarrow>
          if is_identifier s \<and> s \<notin> set reserved \<and> (tbl \<noteq> [] \<or> s \<in> set field_names) then
            (case those (map (cell s) tbl) of
               None \<Rightarrow> Inl (Unsupported s)
             | Some xs \<Rightarrow> Inr (Values xs))
          else Inl (Unsupported s))"

text \<open>
  \<open>met_specs &= conditional_df.eval(f"{lhs} <= {rhs}+{tolerance}")\<close> and the three other
  comparisons: the left side is a column, \<open>adjust\<close> adds or subtracts the tolerance (or
  nothing), and every row's flag is and-ed with the outcome for the row. The assignment
  is to the \<open>met_specs\<close> column of the frame it reads.
\<close>

definition and_eval ::
  "string \<Rightarrow> (pyfloat \<Rightarrow> pyfloat \<Rightarrow> bool) \<Rightarrow> string \<Rightarrow> (pyfloat \<Rightarrow> pyfloat) \<Rightarrow> crow list \<Rightarrow> error + crow list"
where
  "and_eval lhs cmp rhs adjust tbl =
     (case eval_operand tbl lhs of
        Inl e \<Rightarrow> Inl e
      | Inr (Number a) \<Rightarrow> Inl (Unsupported lhs)
      | Inr (Values xs) \<Rightarrow>
          (case eval_operand tbl rhs of
             Inl e \<Rightarrow> Inl e
           | Inr (Number b) \<Rightarrow>
               Inr (map2 (\<lambda>r x. r\<lparr>met_specs := met_specs r \<and> cmp x (adjust (Fin b))\<rparr>) tbl xs)
           | Inr (Values ys) \<Rightarrow>
               Inr (map2 (\<lambda>r (x, y). r\<lparr>met_specs := met_specs r \<and> cmp x (adjust y)\<rparr>)
                      tbl (zip xs ys))))"

fun eval_loop :: "real \<Rightarrow> parsed list \<Rightarrow> crow list \<Rightarrow> error option \<times> crow list" where
  "eval_loop tolerance_percent [] tbl = (None, tbl)"
| "eval_loop tolerance_percent ((v, opr, rhs) # cs) tbl =
     (if opr = ''='' then
        (case py_float rhs of
           None \<Rightarrow> (Some FloatValueError, tbl)
         | Some t \<Rightarrow>
             (let tolerance = tolerance_percent / 100 * t
              in case and_eval v fle rhs (\<lambda>y. fadd y (Fin tolerance)) tbl of
                   Inl e \<Rightarrow> (Some e, tbl)
                 | Inr tbl1 \<Rightarrow>
                     (case and_eval v fge rhs (\<lambda>y. fsub y (Fin tolerance)) tbl1 of
                        Inl e \<Rightarrow> (Some e, tbl1)
                      | Inr tbl2 \<Rightarrow> eval_loop tolerance_percent cs tbl2)))
      else if opr = ''>'' then
        (case and_eval v fge rhs (\<lambda>y. y) tbl of
           Inl e \<Rightarrow> (Some e, tbl)
         | Inr tbl1 \<Rightarrow> eval_loop tolerance_percent cs tbl1)
      else if opr = ''<'' then
        (case and_eval v fle rhs (\<lambda>y. y) tbl of
           Inl e \<Rightarrow> (Some e, tbl)
         | Inr tbl1 \<Rightarrow> eval_loop tolerance_percent cs tbl1)
      else eval_loop tolerance_percent cs tbl)"

definition compute_conditional_df ::
  "df_ops \<Rightarrow> string list \<Rightarrow> real \<Rightarrow> real \<Rightarrow> real \<Rightarrow> (error + unit) \<times> df_ops"
where
  "compute_conditional_df st conditions tolerance_percent WoverL_min Wmax =
     (case parse_conditions conditions of
        Inl e \<Rightarrow> (Inl e, st)
      | Inr parsed_conditions \<Rightarrow>
          (case resize_loop st WoverL_min Wmax parsed_conditions [] False of
             (Some e, acc, flag) \<Rightarrow> (Inl e, st\<lparr>conditional_df := Accum acc\<rparr>)
           | (None, acc, flag) \<Rightarrow>
               (let sized = map add_area acc
                in if \<not> flag then (Inl ConditionsNotSufficient, st\<lparr>conditional_df := Sized sized\<rparr>)
                   else (case eval_loop tolerance_percent parsed_conditions (map (flagged True) sized) of
                           (Some e, tbl) \<Rightarrow> (Inl e, st\<lparr>conditional_df := Flagged tbl\<rparr>)
                         | (None, tbl) \<Rightarrow> (Inr (), st\<lparr>conditional_df := Flagged tbl\<rparr>)))))"

text \<open>The default arguments of \<open>compute_conditional_df\<close>.\<close>

definition tolerance_percent_default :: real where
  "tolerance_percent_default = 1"

definition WoverL_min_default :: real where
  "WoverL_min_default = 5 / 10"

definition Wmax_default :: real where
  "Wmax_default = 100 / 10 ^ 6"

section \<open>format_with_units\<close>

definition digit_char :: "nat \<Rightarrow> char" where
  "digit_char n = ''0123456789'' ! n"

fun dec :: "nat \<Rightarrow> string" where
  "dec n = (if n < 10 then [digit_char n] else dec (n div 10) @ [digit_char (n mod 10)])"

declare dec.simps [simp del]

text \<open>
  The format \<open>.2f\<close> rounds to the nearest multiple of one hundredth, a tie going to the
  even neighbour, and a negative value keeps its sign even when it rounds to zero.
\<close>

definition round_half_even :: "real \<Rightarrow> int" where
  "round_half_even x =
     (let f = \<lfloor>x\<rfloor>; d = x - of_int f
      in if d < 1 / 2 then f else if 1 / 2 < d then f + 1 else if even f then f else f + 1)"

definition format_2f :: "real \<Rightarrow> string" where
  "format_2f x =
     (let n = nat (round_half_even (\<bar>x\<bar> * 100))
      in (if x < 0 then ''-'' else []) @ dec (n div 100) @ ''.'' @
         [digit_char (n mod 100 div 10), digit_char (n mod 10)])"

definition unit_scales :: "(string \<times> real) list" where
  "unit_scales =
     zip [''T'', ''G'', ''M'', ''k'', '''', ''m'', ''u'', ''n'', ''p'', ''f'']
         [10 ^ 12, 10 ^ 9, 10 ^ 6, 10 ^ 3, 1, 1 / 10 ^ 3, 1 / 10 ^ 6, 1 / 10 ^ 9, 1 / 10 ^ 12,
          1 / 10 ^ 15]"

text \<open>
  The loop returns at the first unit whose scale the value reaches, and at \<open>f\<close> in any
  case. \<open>None\<close> stands for the statement after the loop, which formats with \<open>str\<close>.
\<close>

fun format_loop :: "real \<Rightarrow> (string \<times> real) list \<Rightarrow> string option" where
  "format_loop v [] = None"
| "format_loop v ((unit, scale) # rest) =
     (if scale \<le> \<bar>v\<bar> \<or> unit = ''f'' then Some (format_2f (v / scale) @ unit)
      else format_loop v rest)"

definition format_with_units :: "real \<Rightarrow> string option" where
  "format_with_units v = format_loop v unit_scales"

section \<open>The loop body, row by row\<close>

text \<open>
  The loop body of \<open>compute_conditional_df\<close> works on whole columns. Read for the single
  row with index label \<open>i\<close>, it gives the row a new width, keeps or drops it, and rescales
  it against the width that \<open>self.df\<close> has at \<open>i\<close>. The lemma \<open>resize_loop_rowwise\<close>
  below proves that the loop computes exactly this.
\<close>

definition driving :: "string \<Rightarrow> (pyfloat, 'a) row_scheme \<Rightarrow> pyfloat" where
  "driving v r =
     (if v = ''cgg'' then cgg r
      else if v = ''gm'' then gm r
      else if v = ''gmb'' then gmb r
      else if v = ''id'' then id_col r
      else rout r)"

definition new_width :: "string \<Rightarrow> real \<Rightarrow> pyfloat row \<Rightarrow> pyfloat" where
  "new_width v t r =
     (if v \<in> set proportional then fmul (W r) (fdiv (Fin t) (driving v r))
      else fmul (W r) (fdiv (driving v r) (Fin t)))"

definition contribution :: "df_ops \<Rightarrow> real \<Rightarrow> real \<Rightarrow> string \<Rightarrow> real \<Rightarrow> nat \<Rightarrow> trow option" where
  "contribution st WoverL_min Wmax v t i =
     (let r = mod_df st ! i;
          w' = new_width v t r;
          k = fdiv w' (original_width (df st) i)
      in if flt w' (Fin Wmax) \<and> fgt (fdiv w' (L r)) (Fin WoverL_min)
         then Some \<lparr>W = w', L = L r, gm = fmul (gm r) k, gmb = fmul (gmb r) k,
                    rout = fdiv (rout r) k, cgg = fmul (cgg r) k, id_col = fmul (id_col r) k,
                    extra = extra r, condition = Some v\<rparr>
         else None)"

text \<open>
  When no row of the table is kept for a condition, every label of \<open>self.df\<close> comes back
  as a row of missing values.
\<close>

definition missing_rows :: "df_ops \<Rightarrow> trow list" where
  "missing_rows st =
     map (\<lambda>i. missing_row (if i < length (mod_df st) then map fst (extra (mod_df st ! i)) else []))
       [0..<length (df st)]"

definition contributions :: "df_ops \<Rightarrow> real \<Rightarrow> real \<Rightarrow> parsed \<Rightarrow> trow list" where
  "contributions st WoverL_min Wmax c =
     (case c of (v, opr, rhs) \<Rightarrow>
        (case py_float rhs of
           None \<Rightarrow> []
         | Some t \<Rightarrow>
             (let kept = List.map_filter (contribution st WoverL_min Wmax v t)
                           [0..<length (mod_df st)]
              in if kept = [] then missing_rows st else kept)))"

definition resizable :: "parsed \<Rightarrow> bool" where
  "resizable c = (fst c \<in> set (proportional @ inversly))"

section \<open>A condition on a row, as the specification words it\<close>

text \<open>
  The target of a condition for a row is the number its right side denotes, or the row's
  value of the column it names. An equality holds within the band of \<open>tolerancePercent\<close>
  of the target on both sides, \<open>>\<close> and \<open><\<close> hold inclusively. A condition on a column
  that the row does not have, or without a target, does not hold. The parser gives no
  other operator; one that is not among the three constrains nothing.
\<close>

definition target :: "string \<Rightarrow> (pyfloat, 'a) row_scheme \<Rightarrow> pyfloat option" where
  "target rhs r = (case py_float rhs of Some t \<Rightarrow> Some (Fin t) | None \<Rightarrow> cell rhs r)"

definition condition_holds :: "real \<Rightarrow> parsed \<Rightarrow> (pyfloat, 'a) row_scheme \<Rightarrow> bool" where
  "condition_holds p c r =
     (case c of (v, opr, rhs) \<Rightarrow>
        if opr \<in> set [''='', ''>'', ''<''] then
          (case (cell v r, target rhs r) of
             (Some x, Some t) \<Rightarrow>
               if opr = ''='' then fle (fmul t (Fin (1 - p / 100))) x \<and> fle x (fmul t (Fin (1 + p / 100)))
               else if opr = ''>'' then fge x t
               else fle x t
           | _ \<Rightarrow> False)
        else True)"

section \<open>Objects and references\<close>

text \<open>
  Python frames are objects: \<open>copy\<close>, a row filter and \<open>concat\<close> build a new frame, an
  assignment to a column changes the frame it is applied to, and an attribute or a
  variable holds a reference. To tell the one from the other the heap is a list of
  objects with the position as the address: a new object goes to the end, an assignment
  to a column replaces the object at its address. An object is a frame with the columns
  of \<open>mod_df\<close> (\<open>Base\<close>), \<open>temp_copy\<close> once it has its \<open>condition\<close> column, its rows with
  their index labels (\<open>Temp\<close>), or a frame that \<open>conditional_df\<close> refers to (\<open>Result\<close>).
  A reference that does not hold the kind of frame a statement needs is reported as a
  missing column.
\<close>

datatype obj = Base "pyfloat row list" | Temp "(nat \<times> trow) list" | Result cdf

type_synonym heap = "obj list"

definition lookup :: "heap \<Rightarrow> nat \<Rightarrow> obj option" where
  "lookup h a = (if a < length h then Some (h ! a) else None)"

definition alloc :: "heap \<Rightarrow> obj \<Rightarrow> nat \<times> heap" where
  "alloc h v = (length h, h @ [v])"

text \<open>The attributes of the object, as references; \<open>conditional_df\<close> holds \<open>0\<close> at first.\<close>

record df_ops_refs =
  df_ref :: nat
  mod_df_ref :: nat
  conditional_df_ref :: "nat option"

text \<open>
  One pass of the loop body: \<open>temp_copy\<close> is a new object, the two filters build new
  objects, the rescaling assigns into the second of them, and \<open>concat\<close> builds the new
  frame that \<open>self.conditional_df\<close> then refers to. The frames of \<open>self.mod_df\<close> and
  \<open>self.df\<close> are only read.
\<close>

definition resize_step ::
  "df_ops_refs \<Rightarrow> real \<Rightarrow> real \<Rightarrow> parsed \<Rightarrow> heap \<Rightarrow> nat \<Rightarrow> bool \<Rightarrow> error option \<times> heap \<times> nat \<times> bool"
where
  "resize_step self WoverL_min Wmax p h c flag =
     (case (lookup h (mod_df_ref self), lookup h (df_ref self), lookup h c) of
        (Some (Base m), Some (Base d), Some (Result (Accum acc))) \<Rightarrow>
          (case alloc h (Base m) of (t, h1) \<Rightarrow>
             (case set_width m p of
                Inl e \<Rightarrow> (Some e, h1, c, flag)
              | Inr m' \<Rightarrow>
                  (let h2 = h1[t := Base m']
                   in if fst p \<in> set (proportional @ inversly) then
                        (let xs1 = map (\<lambda>(i, r). (i, tag (fst p) r)) (enumerate 0 m');
                             h3 = h2[t := Temp xs1];
                             xs2 = filter (\<lambda>(i, r). flt (W r) (Fin Wmax)) xs1
                         in case alloc h3 (Temp xs2) of (t1, h4) \<Rightarrow>
                              (let xs3 = filter (\<lambda>(i, r). fgt (fdiv (W r) (L r)) (Fin WoverL_min)) xs2
                               in case alloc h4 (Temp xs3) of (t2, h5) \<Rightarrow>
                                    (let xs3' = (if xs3 = [] then adopted d m' else xs3);
                                         xs4 = map (\<lambda>(i, r). (i, rescale_proportional
                                                 (fdiv (W r) (original_width d i)) r)) xs3';
                                         h6 = h5[t2 := Temp xs4];
                                         xs5 = map (\<lambda>(i, r). (i, rescale_inversly
                                                 (fdiv (W r) (original_width d i)) r)) xs4;
                                         h7 = h6[t2 := Temp xs5]
                                     in case alloc h7 (Result (Accum (acc @ map snd xs5))) of
                                          (c', h8) \<Rightarrow> (None, h8, c', True))))
                      else (None, h2, c, flag))))
      | _ \<Rightarrow> (Some (MissingColumn ''W''), h, c, flag))"

fun resize_loop_heap ::
  "df_ops_refs \<Rightarrow> real \<Rightarrow> real \<Rightarrow> parsed list \<Rightarrow> heap \<Rightarrow> nat \<Rightarrow> bool \<Rightarrow> error option \<times> heap \<times> nat \<times> bool"
where
  "resize_loop_heap self WoverL_min Wmax [] h c flag = (None, h, c, flag)"
| "resize_loop_heap self WoverL_min Wmax (p # ps) h c flag =
     (case resize_step self WoverL_min Wmax p h c flag of
        (Some e, h', c', flag') \<Rightarrow> (Some e, h', c', flag')
      | (None, h', c', flag') \<Rightarrow> resize_loop_heap self WoverL_min Wmax ps h' c' flag')"

definition compute_conditional_df_heap ::
  "heap \<Rightarrow> df_ops_refs \<Rightarrow> string list \<Rightarrow> real \<Rightarrow> real \<Rightarrow> real \<Rightarrow> (error + unit) \<times> heap \<times> df_ops_refs"
where
  "compute_conditional_df_heap h self conditions tolerance_percent WoverL_min Wmax =
     (case parse_conditions conditions of
        Inl e \<Rightarrow> (Inl e, h, self)
      | Inr parsed_conditions \<Rightarrow>
          (case alloc h (Result (Accum [])) of (c0, h0) \<Rightarrow>
             (case resize_loop_heap self WoverL_min Wmax parsed_conditions h0 c0 False of
                (Some e, h1, c, flag) \<Rightarrow> (Inl e, h1, self\<lparr>conditional_df_ref := Some c\<rparr>)
              | (None, h1, c, flag) \<Rightarrow>
                  (case lookup h1 c of
                     Some (Result (Accum acc)) \<Rightarrow>
                       (let sized = map add_area acc;
                            h2 = h1[c := Result (Sized sized)]
                        in if \<not> flag
                           then (Inl ConditionsNotSufficient, h2, self\<lparr>conditional_df_ref := Some c\<rparr>)
                           else (case eval_loop tolerance_percent parsed_conditions
                                        (map (flagged True) sized) of
                                   (Some e, tbl) \<Rightarrow>
                                     (Inl e, h2[c := Result (Flagged tbl)],
                                      self\<lparr>conditional_df_ref := Some c\<rparr>)
                                 | (None, tbl) \<Rightarrow>
                                     (Inr (), h2[c := Result (Flagged tbl)],
                                      self\<lparr>conditional_df_ref := Some c\<rparr>)))
                   | _ \<Rightarrow> (Inl (MissingColumn ''W''), h1, self\<lparr>conditional_df_ref := Some c\<rparr>)))))"

text \<open>The object as the value-level model sees it.\<close>

definition view :: "heap \<Rightarrow> df_ops_refs \<Rightarrow> df_ops option" where
  "view h self =
     (case (lookup h (df_ref self), lookup h (mod_df_ref self)) of
        (Some (Base d), Some (Base m)) \<Rightarrow>
          (case conditional_df_ref self of
             None \<Rightarrow> Some \<lparr>df = d, mod_df = m, conditional_df = Unset\<rparr>
           | Some c \<Rightarrow>
               (case lookup h c of
                  Some (Result x) \<Rightarrow> Some \<lparr>df = d, mod_df = m, conditional_df = x\<rparr>
                | _ \<Rightarrow> None))
      | _ \<Rightarrow> None)"

section \<open>Example tables\<close>

text \<open>
  The two-row table of the specification's end-to-end example, as loaded, with one more
  column that no condition resizes by, and the object constructed from it.
\<close>

definition example_loaded :: "string row list" where
  "example_loaded =
     [\<lparr>W = ''1u'', L = Fin (1 / 10 ^ 7), gm = Fin (1 / 10 ^ 3), gmb = Fin (2 / 10 ^ 4),
        rout = Fin 50000, cgg = Fin (1 / 10 ^ 12), id_col = Fin (2 / 10 ^ 4),
        extra = [(''region'', Fin 2)]\<rparr>,
      \<lparr>W = ''2u'', L = Fin (1 / 10 ^ 7), gm = Fin (2 / 10 ^ 3), gmb = Fin (2 / 10 ^ 4),
        rout = Fin 30000, cgg = Fin (2 / 10 ^ 12), id_col = Fin (4 / 10 ^ 4),
        extra = [(''region'', Fin 2)]\<rparr>]"

definition example_ops :: df_ops where
  "example_ops =
     (case init example_loaded of
        Inr st \<Rightarrow> st
      | Inl e \<Rightarrow> \<lparr>df = [], mod_df = [], conditional_df = Unset\<rparr>)"

text \<open>A table whose only row has width zero.\<close>

definition zero_width_ops :: df_ops where
  "zero_width_ops =
     (case init [\<lparr>W = ''0'', L = Fin (1 / 10 ^ 7), gm = Fin (1 / 10 ^ 3), gmb = Fin (2 / 10 ^ 4),
                  rout = Fin 50000, cgg = Fin (1 / 10 ^ 12), id_col = Fin (2 / 10 ^ 4),
                  extra = []\<rparr>] of
        Inr st \<Rightarrow> st
      | Inl e \<Rightarrow> \<lparr>df = [], mod_df = [], conditional_df = Unset\<rparr>)"

text \<open>The example object on a heap that holds its two frames.\<close>

definition example_heap :: heap where
  "example_heap = [Base (df example_ops), Base (mod_df example_ops)]"

definition example_refs :: df_ops_refs where
  "example_refs = \<lparr>df_ref = 0, mod_df_ref = 1, conditional_df_ref = None\<rparr>"

section \<open>The loops, row by row\<close>

lemma set_width_other:
  "fst c \<notin> set (proportional @ inversly) \<Longrightarrow> set_width m c = Inr m"
  by (cases c) (simp add: set_width_def)

lemma resize_loop_no_resizable:
  "\<forall>c \<in> set ps. \<not> resizable c \<Longrightarrow> resize_loop st wl wmax ps acc flag = (None, acc, flag)"
  by (induction ps arbitrary: acc flag) (simp_all add: set_width_other resizable_def)

lemma compute_insufficient:
  assumes "parse_conditions cs = Inr ps" and "\<forall>c \<in> set ps. \<not> resizable c"
  shows "compute_conditional_df st cs tol wl wmax =
           (Inl ConditionsNotSufficient, st\<lparr>conditional_df := Sized []\<rparr>)"
  using assms by (simp add: compute_conditional_df_def resize_loop_no_resizable)

lemma resize_loop_frame:
  "resize_loop (st\<lparr>conditional_df := x\<rparr>) wl wmax ps acc flag = resize_loop st wl wmax ps acc flag"
  by (induction ps arbitrary: acc flag) (simp_all add: resized_def Let_def split: sum.splits)

lemma compute_frame:
  "mod_df (snd (compute_conditional_df st cs tol wl wmax)) = mod_df st \<and>
   df (snd (compute_conditional_df st cs tol wl wmax)) = df st"
  by (simp add: compute_conditional_df_def Let_def split: sum.splits prod.splits option.splits)

lemma cell_driving:
  "v \<in> set (proportional @ inversly) \<Longrightarrow> cell v r = Some (driving v r)"
  by (auto simp: cell_def driving_def proportional_def inversly_def)

lemma those_map_Some: "those (map (\<lambda>x. Some (f x)) xs) = Some (map f xs)"
  by (induction xs) simp_all

lemma column_driving:
  "v \<in> set (proportional @ inversly) \<Longrightarrow> column v m = Inr (map (driving v) m)"
  by (simp add: column_def cell_driving those_map_Some cong: map_cong)

lemma map2_map_same: "map2 f xs (map g xs) = map (\<lambda>x. f x (g x)) xs"
  by (induction xs) simp_all

lemma set_width_resizable:
  assumes "v \<in> set (proportional @ inversly)" and "py_float rhs = Some t"
  shows "set_width m (v, opr, rhs) = Inr (map (\<lambda>r. r\<lparr>W := new_width v t r\<rparr>) m)"
  using assms column_driving[OF assms(1), of m]
  by (auto simp: set_width_def new_width_def map2_map_same inversly_def)


lemma enumerate_map_nth: "enumerate 0 xs = map (\<lambda>i. (i, xs ! i)) [0..<length xs]"
proof -
  have "enumerate 0 (map ((!) xs) [0..<length xs]) = map (\<lambda>k. (k, xs ! k)) [0..<length xs]"
    by (rule enumerate_map_upt)
  then show ?thesis by (simp add: map_nth)
qed

lemma enumerate_map_map:
  "enumerate 0 (map g xs) = map (\<lambda>i. (i, g (xs ! i))) [0..<length xs]"
  by (simp add: enumerate_map_nth cong: map_cong)

lemma rescale_missing_row:
  "rescale_inversly (fdiv (W (rescale_proportional (fdiv (W (missing_row ns)) k) (missing_row ns))) k')
     (rescale_proportional (fdiv (W (missing_row ns)) k) (missing_row ns)) = missing_row ns"
  by (simp add: missing_row_def rescale_proportional_def rescale_inversly_def)

lemma map_filter_eq:
  "List.map_filter f xs = map (\<lambda>x. the (f x)) (filter (\<lambda>x. f x \<noteq> None) xs)"
  by (simp add: List.map_filter_def comp_def)

lemma resized_rowwise:
  "resized st wl wmax v (map (\<lambda>r. r\<lparr>W := new_width v t r\<rparr>) (mod_df st)) =
     (let kept = List.map_filter (contribution st wl wmax v t) [0..<length (mod_df st)]
      in if kept = [] then missing_rows st else kept)"
proof -
  let ?n = "length (mod_df st)"
  let ?temp = "map (\<lambda>r. r\<lparr>W := new_width v t r\<rparr>) (mod_df st)"
  let ?keep = "\<lambda>i. flt (new_width v t (mod_df st ! i)) (Fin wmax) \<and>
                 fgt (fdiv (new_width v t (mod_df st ! i)) (L (mod_df st ! i))) (Fin wl)"
  let ?t3 = "filter (\<lambda>(i, r). fgt (fdiv (W r) (L r)) (Fin wl))
               (filter (\<lambda>(i, r). flt (W r) (Fin wmax))
                 (map (\<lambda>(i, r). (i, tag v r)) (enumerate 0 ?temp)))"
  have t3: "?t3 = map (\<lambda>i. (i, tag v ((mod_df st ! i)\<lparr>W := new_width v t (mod_df st ! i)\<rparr>)))
                    (filter ?keep [0..<?n])"
    unfolding enumerate_map_map
    by (simp add: filter_map comp_def tag_def row.defs cong: map_cong filter_cong)
  have r: "List.map_filter (contribution st wl wmax v t) [0..<?n] =
        map (\<lambda>i. the (contribution st wl wmax v t i)) (filter ?keep [0..<?n])"
    by (simp add: List.map_filter_def comp_def contribution_def Let_def cong: filter_cong)
  show ?thesis
  proof (cases "filter ?keep [0..<?n] = []")
    case True
    then have e: "?t3 = []" unfolding t3 by simp
    have "resized st wl wmax v ?temp = missing_rows st"
      unfolding resized_def Let_def e
      by (simp add: adopted_def missing_rows_def comp_def rescale_missing_row cong: map_cong)
    with True r show ?thesis by (simp add: Let_def)
  next
    case False
    then have e: "?t3 \<noteq> []" unfolding t3 by simp
    have "resized st wl wmax v ?temp =
        map (\<lambda>i. the (contribution st wl wmax v t i)) (filter ?keep [0..<?n])"
      unfolding resized_def Let_def using e unfolding t3
      by (simp add: comp_def contribution_def Let_def tag_def rescale_proportional_def
          rescale_inversly_def row.defs trow.defs cong: map_cong)
    with False r show ?thesis by (simp add: Let_def)
  qed
qed

lemma resize_loop_rowwise:
  "resize_loop st wl wmax ps acc flag = (None, acc', flag') \<Longrightarrow>
     acc' = acc @ concat (map (contributions st wl wmax) (filter resizable ps)) \<and>
     flag' = (flag \<or> (\<exists>c \<in> set ps. resizable c))"
proof (induction ps arbitrary: acc flag)
  case Nil
  then show ?case by simp
next
  case (Cons c ps)
  obtain v opr rhs where c: "c = (v, opr, rhs)" by (cases c)
  show ?case
  proof (cases "resizable c")
    case False
    then have "set_width (mod_df st) c = Inr (mod_df st)"
      by (simp add: set_width_other resizable_def)
    with False Cons show ?thesis by (simp add: resizable_def)
  next
    case True
    then have v: "v \<in> set (proportional @ inversly)" by (simp add: resizable_def c)
    show ?thesis
    proof (cases "py_float rhs")
      case None
      with v have "set_width (mod_df st) c = Inl FloatValueError"
        by (auto simp: set_width_def c)
      with Cons.prems show ?thesis by simp
    next
      case (Some t)
      have sw: "set_width (mod_df st) c = Inr (map (\<lambda>r. r\<lparr>W := new_width v t r\<rparr>) (mod_df st))"
        unfolding c by (rule set_width_resizable[OF v Some])
      have "resize_loop st wl wmax ps (acc @ contributions st wl wmax c) True = (None, acc', flag')"
        using Cons.prems v sw Some
        by (simp add: c resized_rowwise contributions_def)
      from Cons.IH[OF this] True show ?thesis by simp
    qed
  qed
qed


lemma those_map_the:
  "those (map f xs) = Some ys \<Longrightarrow> ys = map (\<lambda>x. the (f x)) xs \<and> (\<forall>x \<in> set xs. f x \<noteq> None)"
proof (induction xs arbitrary: ys)
  case Nil
  then show ?case by simp
next
  case (Cons x xs)
  then show ?case by (auto split: option.splits)
qed

lemma eval_operand_Values:
  assumes "eval_operand tbl s = Inr (Values xs)"
  shows "py_float s = None" and "xs = map (\<lambda>r. the (cell s r)) tbl"
    and "\<forall>r \<in> set tbl. cell s r \<noteq> None"
proof -
  from assms show n: "py_float s = None"
    by (auto simp: eval_operand_def split: option.splits if_splits)
  with assms have "those (map (cell s) tbl) = Some xs"
    by (auto simp: eval_operand_def split: option.splits if_splits)
  from those_map_the[OF this]
  show "xs = map (\<lambda>r. the (cell s r)) tbl" and "\<forall>r \<in> set tbl. cell s r \<noteq> None"
    by simp_all
qed

lemma eval_operand_Number:
  "eval_operand tbl s = Inr (Number b) \<Longrightarrow> py_float s = Some b"
  by (auto simp: eval_operand_def split: option.splits if_splits)

lemma zip_map_same: "zip (map f xs) (map g xs) = map (\<lambda>x. (f x, g x)) xs"
  by (induction xs) simp_all

lemma and_eval_rowwise:
  assumes "and_eval lhs cmp rhs adjust tbl = Inr tbl1"
  shows "tbl1 = map (\<lambda>r. r\<lparr>met_specs := met_specs r \<and>
                     cmp (the (cell lhs r)) (adjust (the (target rhs r)))\<rparr>) tbl"
    and "\<forall>r \<in> set tbl. cell lhs r \<noteq> None \<and> target rhs r \<noteq> None"
proof -
  from assms obtain xs where l: "eval_operand tbl lhs = Inr (Values xs)"
    by (auto simp: and_eval_def split: sum.splits operand.splits)
  note L = eval_operand_Values[OF l]
  from assms l consider
      (num) b where "eval_operand tbl rhs = Inr (Number b)"
    | (col) ys where "eval_operand tbl rhs = Inr (Values ys)"
    by (auto simp: and_eval_def split: sum.splits operand.splits)
  then have "tbl1 = map (\<lambda>r. r\<lparr>met_specs := met_specs r \<and>
                     cmp (the (cell lhs r)) (adjust (the (target rhs r)))\<rparr>) tbl \<and>
     (\<forall>r \<in> set tbl. target rhs r \<noteq> None)"
  proof cases
    case num
    from eval_operand_Number[OF num] have t: "\<And>r :: crow. target rhs r = Some (Fin b)"
      by (simp add: target_def)
    from assms l num show ?thesis
      by (simp add: and_eval_def L(2) map2_map_same t)
  next
    case col
    note R = eval_operand_Values[OF col]
    from R(1) have t: "\<And>r :: crow. target rhs r = cell rhs r"
      by (simp add: target_def)
    from assms l col have "tbl1 = map2 (\<lambda>r (x, y). r\<lparr>met_specs := met_specs r \<and> cmp x (adjust y)\<rparr>)
          tbl (zip xs ys)"
      by (simp add: and_eval_def)
    then show ?thesis
      unfolding L(2) R(2) zip_map_same map2_map_same using R(3) by (simp add: t)
  qed
  with L(3) show "tbl1 = map (\<lambda>r. r\<lparr>met_specs := met_specs r \<and>
                     cmp (the (cell lhs r)) (adjust (the (target rhs r)))\<rparr>) tbl"
    and "\<forall>r \<in> set tbl. cell lhs r \<noteq> None \<and> target rhs r \<noteq> None"
    by simp_all
qed

lemma cell_met_specs_update [simp]: "cell v (r\<lparr>met_specs := b\<rparr>) = cell v r"
  by (simp add: cell_def)

lemma target_met_specs_update [simp]: "target rhs (r\<lparr>met_specs := b\<rparr>) = target rhs r"
  by (simp add: target_def split: option.splits)

lemma condition_holds_met_specs_update [simp]:
  "condition_holds p c (r\<lparr>met_specs := b\<rparr>) = condition_holds p c r"
  by (simp add: condition_holds_def)

lemma band_eq:
  "(fle x (fadd (Fin t) (Fin (p / 100 * t))) \<and> fge x (fsub (Fin t) (Fin (p / 100 * t)))) =
   (fle (fmul (Fin t) (Fin (1 - p / 100))) x \<and> fle x (fmul (Fin t) (Fin (1 + p / 100))))"
proof -
  have "t + p / 100 * t = t * (1 + p / 100)" "t - p / 100 * t = t * (1 - p / 100)"
    by (simp_all add: algebra_simps)
  then show ?thesis by (auto simp: fge_def fsub_def)
qed

lemma eval_loop_rowwise:
  "eval_loop p ps tbl = (None, tbl') \<Longrightarrow>
     tbl' = map (\<lambda>r. r\<lparr>met_specs := met_specs r \<and> (\<forall>c \<in> set ps. condition_holds p c r)\<rparr>) tbl"
proof (induction ps arbitrary: tbl)
  case Nil
  then show ?case by simp
next
  case (Cons c ps)
  obtain v opr rhs where c: "c = (v, opr, rhs)" by (cases c)
  let ?step = "map (\<lambda>r. r\<lparr>met_specs := met_specs r \<and> condition_holds p c r\<rparr>) tbl"
  have "eval_loop p ps ?step = (None, tbl')"
  proof -
    consider (eq) "opr = ''=''" | (gt) "opr = ''>''" | (lt) "opr = ''<''"
      | (other) "opr \<notin> set [''='', ''>'', ''<'']" by auto
    then show ?thesis
    proof cases
      case eq
      from Cons.prems eq obtain t tbl1 tbl2 where
        t: "py_float rhs = Some t" and
        a1: "and_eval v fle rhs (\<lambda>y. fadd y (Fin (p / 100 * t))) tbl = Inr tbl1" and
        a2: "and_eval v fge rhs (\<lambda>y. fsub y (Fin (p / 100 * t))) tbl1 = Inr tbl2" and
        rest: "eval_loop p ps tbl2 = (None, tbl')"
        by (auto simp: c Let_def split: sum.splits option.splits)
      from t have tg: "\<And>r :: crow. target rhs r = Some (Fin t)" by (simp add: target_def)
      have "tbl2 = ?step"
        unfolding and_eval_rowwise(1)[OF a2] and_eval_rowwise(1)[OF a1]
        using and_eval_rowwise(2)[OF a1] eq band_eq[of _ t p]
        by (auto simp: c condition_holds_def comp_def tg)
      with rest show ?thesis by simp
    next
      case gt
      from Cons.prems gt obtain tbl1 where
        a1: "and_eval v fge rhs (\<lambda>y. y) tbl = Inr tbl1" and
        rest: "eval_loop p ps tbl1 = (None, tbl')"
        by (auto simp: c split: sum.splits option.splits)
      have "tbl1 = ?step"
        unfolding and_eval_rowwise(1)[OF a1]
        using and_eval_rowwise(2)[OF a1] gt by (auto simp: c condition_holds_def)
      with rest show ?thesis by simp
    next
      case lt
      from Cons.prems lt obtain tbl1 where
        a1: "and_eval v fle rhs (\<lambda>y. y) tbl = Inr tbl1" and
        rest: "eval_loop p ps tbl1 = (None, tbl')"
        by (auto simp: c split: sum.splits option.splits)
      have "tbl1 = ?step"
        unfolding and_eval_rowwise(1)[OF a1]
        using and_eval_rowwise(2)[OF a1] lt by (auto simp: c condition_holds_def)
      with rest show ?thesis by simp
    next
      case other
      then have "?step = tbl" by (simp add: c condition_holds_def)
      with Cons.prems other show ?thesis by (simp add: c)
    qed
  qed
  from Cons.IH[OF this] show ?case by (simp add: comp_def conj_assoc)
qed

lemma cell_flagged [simp]: "cell v (flagged b r) = cell v r"
  by (simp add: cell_def flagged_def trow.defs)

lemma target_flagged [simp]: "target rhs (flagged b r) = target rhs r"
  by (simp add: target_def split: option.splits)

lemma condition_holds_flagged [simp]: "condition_holds p c (flagged b r) = condition_holds p c r"
  by (simp add: condition_holds_def)

lemma flagged_update [simp]: "(flagged b r)\<lparr>met_specs := b'\<rparr> = flagged b' r"
  by (simp add: flagged_def trow.defs)

lemma met_specs_flagged [simp]: "met_specs (flagged b r) = b"
  by (simp add: flagged_def trow.defs)

lemma compute_success:
  assumes "compute_conditional_df st cs p wl wmax = (Inr (), st')"
  shows "\<exists>ps. parse_conditions cs = Inr ps \<and> (\<exists>c \<in> set ps. resizable c) \<and>
           st' = st\<lparr>conditional_df := Flagged
             (map (\<lambda>r. flagged (\<forall>c \<in> set ps. condition_holds p c (add_area r)) (add_area r))
                (concat (map (contributions st wl wmax) (filter resizable ps))))\<rparr>"
proof -
  from assms obtain ps where ps: "parse_conditions cs = Inr ps"
    by (auto simp: compute_conditional_df_def split: sum.splits)
  from assms ps obtain acc flag where
    loop: "resize_loop st wl wmax ps [] False = (None, acc, flag)"
    by (auto simp: compute_conditional_df_def Let_def split: prod.splits option.splits)
  from resize_loop_rowwise[OF loop] have
    acc: "acc = concat (map (contributions st wl wmax) (filter resizable ps))" and
    flag: "flag = (\<exists>c \<in> set ps. resizable c)" by simp_all
  from assms ps loop obtain tbl where
    fl: flag and ev: "eval_loop p ps (map (flagged True) (map add_area acc)) = (None, tbl)" and
    st': "st' = st\<lparr>conditional_df := Flagged tbl\<rparr>"
    by (auto simp: compute_conditional_df_def Let_def split: prod.splits option.splits if_splits)
  have "tbl = map (\<lambda>r. flagged (\<forall>c \<in> set ps. condition_holds p c (add_area r)) (add_area r)) acc"
    using eval_loop_rowwise[OF ev] by (simp add: comp_def)
  with ps fl flag st' acc show ?thesis by auto
qed

section \<open>Frame of a call\<close>

lemma compute_snd:
  "snd (compute_conditional_df st cs p wl wmax) =
     st\<lparr>conditional_df := conditional_df (snd (compute_conditional_df st cs p wl wmax))\<rparr>"
  by (simp add: compute_conditional_df_def Let_def split: sum.splits prod.splits option.splits)

lemma compute_fst_frame:
  "fst (compute_conditional_df (st\<lparr>conditional_df := x\<rparr>) cs p wl wmax) =
     fst (compute_conditional_df st cs p wl wmax)"
  by (simp add: compute_conditional_df_def Let_def resize_loop_frame
      split: sum.splits prod.splits option.splits)

lemma compute_table_frame:
  "parse_conditions cs = Inr ps \<Longrightarrow>
   conditional_df (snd (compute_conditional_df (st\<lparr>conditional_df := x\<rparr>) cs p wl wmax)) =
     conditional_df (snd (compute_conditional_df st cs p wl wmax))"
  by (simp add: compute_conditional_df_def Let_def resize_loop_frame
      split: sum.splits prod.splits option.splits)

lemma parse_region: "parse_conditions [''region=2''] = Inr [(''region'', ''='', ''2'')]"
  by code_simp

lemma region_not_resizable:
  "\<forall>c \<in> set [(''region'', ''='', ''2'')]. fst c \<notin> set proportional \<and> fst c \<notin> set inversly"
  by (simp add: proportional_def inversly_def)

section \<open>Calls without a resizable condition\<close>

text \<open>
  Claim C4. When every string of the condition list parses and no parsed variable is in
  \<open>proportional\<close> or \<open>inversly\<close>, the call raises "The conditions are not sufficient"
  and returns no table. The empty list and the list \<open>["region=2"]\<close> are such lists.
\<close>

theorem no_resizable_condition_raises:
  assumes "parse_conditions conditions = Inr ps"
    and "\<forall>c \<in> set ps. fst c \<notin> set proportional \<and> fst c \<notin> set inversly"
  shows "fst (compute_conditional_df st conditions p wl wmax) = Inl ConditionsNotSufficient"
  using assms compute_insufficient[of conditions ps st p wl wmax]
  by (simp add: resizable_def)

theorem no_resizable_condition_raises_witness:
  "parse_conditions [''region=2''] = Inr [(''region'', ''='', ''2'')] \<and>
   fst (compute_conditional_df example_ops [''region=2''] 1 (5 / 10) (100 / 10 ^ 6)) =
     Inl ConditionsNotSufficient \<and>
   fst (compute_conditional_df example_ops [] 1 (5 / 10) (100 / 10 ^ 6)) =
     Inl ConditionsNotSufficient"
proof -
  have e: "parse_conditions [] = Inr []" by simp
  show ?thesis
    using parse_region
      no_resizable_condition_raises[OF parse_region region_not_resizable,
        of example_ops 1 "5 / 10" "100 / 10 ^ 6"]
      no_resizable_condition_raises[OF e, of example_ops 1 "5 / 10" "100 / 10 ^ 6"]
    by simp
qed

text \<open>
  Claim C10. The failing call is not atomic: when it raises for want of a resizable
  condition it has already stored an empty table with its \<open>area\<close> column in
  \<open>conditional_df\<close>, whatever was stored there before, such as the table of an earlier
  successful call. Nothing else of the object changes.
\<close>

theorem failing_call_replaces_conditional_df:
  assumes "parse_conditions conditions = Inr ps"
    and "\<forall>c \<in> set ps. fst c \<notin> set proportional \<and> fst c \<notin> set inversly"
  shows "compute_conditional_df st conditions p wl wmax =
           (Inl ConditionsNotSufficient, st\<lparr>conditional_df := Sized []\<rparr>)"
  using assms compute_insufficient[of conditions ps st p wl wmax]
  by (simp add: resizable_def)

theorem failing_call_replaces_conditional_df_witness:
  "fst (compute_conditional_df example_ops [''gm=2e-3''] 1 (5 / 10) (100 / 10 ^ 6)) = Inr () \<and>
   conditional_df (snd (compute_conditional_df example_ops [''gm=2e-3''] 1 (5 / 10) (100 / 10 ^ 6)))
     \<noteq> Sized [] \<and>
   conditional_df (snd (compute_conditional_df
      (snd (compute_conditional_df example_ops [''gm=2e-3''] 1 (5 / 10) (100 / 10 ^ 6)))
      [''region=2''] 1 (5 / 10) (100 / 10 ^ 6))) = Sized []"
proof -
  have a: "conditional_df
      (snd (compute_conditional_df example_ops [''gm=2e-3''] 1 (5 / 10) (100 / 10 ^ 6))) \<noteq> Sized []"
    by code_simp
  have b: "fst (compute_conditional_df example_ops [''gm=2e-3''] 1 (5 / 10) (100 / 10 ^ 6)) = Inr ()"
    by code_simp
  show ?thesis
    using a b failing_call_replaces_conditional_df[OF parse_region region_not_resizable,
        of "snd (compute_conditional_df example_ops [''gm=2e-3''] 1 (5 / 10) (100 / 10 ^ 6))"
           1 "5 / 10" "100 / 10 ^ 6"]
    by simp
qed

section \<open>A second call\<close>

lemma compute_second_call:
  "mod_df (snd (compute_conditional_df st cs p wl wmax)) = mod_df st \<and>
   df (snd (compute_conditional_df st cs p wl wmax)) = df st \<and>
   fst (compute_conditional_df (snd (compute_conditional_df st cs p wl wmax)) cs' p' wl' wmax') =
     fst (compute_conditional_df st cs' p' wl' wmax') \<and>
   (parse_conditions cs' = Inr ps' \<longrightarrow>
     conditional_df (snd (compute_conditional_df (snd (compute_conditional_df st cs p wl wmax))
        cs' p' wl' wmax')) =
     conditional_df (snd (compute_conditional_df st cs' p' wl' wmax')))"
proof -
  let ?st' = "snd (compute_conditional_df st cs p wl wmax)"
  have st': "?st' = st\<lparr>conditional_df := conditional_df ?st'\<rparr>"
    by (rule compute_snd)
  have a: "mod_df ?st' = mod_df st" "df ?st' = df st"
    by (simp_all add: compute_frame)
  have b: "fst (compute_conditional_df ?st' cs' p' wl' wmax') =
      fst (compute_conditional_df st cs' p' wl' wmax')"
    by (subst st') (rule compute_fst_frame)
  have c: "parse_conditions cs' = Inr ps' \<Longrightarrow>
      conditional_df (snd (compute_conditional_df ?st' cs' p' wl' wmax')) =
      conditional_df (snd (compute_conditional_df st cs' p' wl' wmax'))"
    by (subst st') (rule compute_table_frame)
  from a b c show ?thesis by blast
qed

section \<open>Comparisons and exact rescaling\<close>

lemma fge_not_flt: "fge a b \<Longrightarrow> \<not> flt a b"
  by (cases a; cases b) (simp_all add: fge_def)

lemma fle_not_fgt: "fle a b \<Longrightarrow> \<not> fgt a b"
  by (cases a; cases b) (simp_all add: fgt_def)

lemma py_float_40e3: "py_float ''40e3'' = Some 40000"
  by code_simp

lemma add_specs_df_map:
  "add_specs_df tbl =
     map (\<lambda>r. add_spec ''gmoverid'' (add_spec ''ft'' (add_spec ''intrinsic_gain'' r))) tbl"
  by (simp add: add_specs_df_def specs_def comp_def add_spec_def)

lemma add_specs_df_W:
  "i < length tbl \<Longrightarrow> W (add_specs_df tbl ! i) = W (tbl ! i)"
  by (simp add: add_specs_df_map add_spec_def set_extra_def)

lemma rescale_proportional_exact:
  assumes "w \<noteq> 0" and "x \<noteq> 0"
  shows "fmul (Fin x) (fdiv (fmul (Fin w) (fdiv (Fin t) (Fin x))) (Fin w)) = Fin t"
  using assms by simp

lemma rescale_inverse_exact:
  assumes "w \<noteq> 0" and "x \<noteq> 0"
  shows "fdiv (Fin x) (fdiv (fmul (Fin w) (fdiv (Fin x) (Fin t))) (Fin w)) = Fin t"
proof (cases "t = 0")
  case True
  with assms show ?thesis 
    by (auto simp: signed_inf_def zero_less_mult_iff mult_less_0_iff not_less)
next
  case False
  with assms show ?thesis by simp
qed

lemma cell_add_area: "cell ''area'' (add_area r) = Some (fmul (W r) (L r))"
  by (simp add: cell_def add_area_def set_extra_def update_conv')

section \<open>The specification matcher\<close>

text \<open>
  Claim C2. The matcher starts every row of the table with \<open>met_specs\<close> true and, when it
  returns, has left the rows in place and set \<open>met_specs\<close> of each row to true exactly
  when every condition of the list holds for that row, where an equality holds within
  the band from \<open>t * (1 - p / 100)\<close> to \<open>t * (1 + p / 100)\<close>, and \<open>>\<close> and \<open><\<close> hold
  inclusively (\<open>condition_holds\<close>). After a successful call the stored table is the table
  that the resizing loop has put together, with its \<open>area\<close> column and these flags.
  With \<open>p = 1\<close> the condition \<open>rout = 40e3\<close> holds for exactly the rows with \<open>rout\<close> from
  39600 to 40400.
\<close>

theorem met_specs_iff_all_conditions:
  "(eval_loop p ps (map (flagged True) tbl) = (None, tbl') \<longrightarrow>
      tbl' = map (\<lambda>r. flagged (\<forall>c \<in> set ps. condition_holds p c r) r) tbl) \<and>
   (compute_conditional_df st cs q wl wmax = (Inr (), st') \<longrightarrow>
      (\<exists>qs acc. parse_conditions cs = Inr qs \<and>
         resize_loop st wl wmax qs [] False = (None, acc, True) \<and>
         conditional_df st' = Flagged
           (map (\<lambda>r. flagged (\<forall>c \<in> set qs. condition_holds q c (add_area r)) (add_area r)) acc))) \<and>
   (\<forall>r :: crow. condition_holds 1 (''rout'', ''='', ''40e3'') r =
      (fle (Fin 39600) (rout r) \<and> fle (rout r) (Fin 40400)))"
proof (intro conjI impI allI)
  assume "eval_loop p ps (map (flagged True) tbl) = (None, tbl')"
  from eval_loop_rowwise[OF this]
  show "tbl' = map (\<lambda>r. flagged (\<forall>c \<in> set ps. condition_holds p c r) r) tbl"
    by (simp add: comp_def)
next
  assume a: "compute_conditional_df st cs q wl wmax = (Inr (), st')"
  then obtain qs where qs: "parse_conditions cs = Inr qs"
    by (auto simp: compute_conditional_df_def split: sum.splits)
  from a qs obtain acc flag where
    loop: "resize_loop st wl wmax qs [] False = (None, acc, flag)"
    by (auto simp: compute_conditional_df_def Let_def split: prod.splits option.splits)
  from a qs loop obtain tbl1 where
    fl: flag and ev: "eval_loop q qs (map (flagged True) (map add_area acc)) = (None, tbl1)" and
    st': "st' = st\<lparr>conditional_df := Flagged tbl1\<rparr>"
    by (auto simp: compute_conditional_df_def Let_def split: prod.splits option.splits if_splits)
  have "tbl1 = map (\<lambda>r. flagged (\<forall>c \<in> set qs. condition_holds q c (add_area r)) (add_area r)) acc"
    using eval_loop_rowwise[OF ev] by (simp add: comp_def)
  with qs loop fl st' show
    "\<exists>qs acc. parse_conditions cs = Inr qs \<and>
         resize_loop st wl wmax qs [] False = (None, acc, True) \<and>
         conditional_df st' = Flagged
           (map (\<lambda>r. flagged (\<forall>c \<in> set qs. condition_holds q c (add_area r)) (add_area r)) acc)"
    by auto
next
  fix r :: crow
  show "condition_holds 1 (''rout'', ''='', ''40e3'') r =
      (fle (Fin 39600) (rout r) \<and> fle (rout r) (Fin 40400))"
    by (simp add: condition_holds_def cell_def target_def py_float_40e3)
qed

theorem met_specs_iff_all_conditions_witness:
  "fst (eval_loop 1 [(''rout'', ''>'', ''40e3''), (''region'', ''='', ''2'')]
          (map (flagged True) (map (tag ''gm'') (mod_df example_ops)))) = None \<and>
   snd (eval_loop 1 [(''rout'', ''>'', ''40e3''), (''region'', ''='', ''2'')]
          (map (flagged True) (map (tag ''gm'') (mod_df example_ops)))) =
     map (\<lambda>r. flagged (\<forall>c \<in> set [(''rout'', ''>'', ''40e3''), (''region'', ''='', ''2'')].
                          condition_holds 1 c r) r)
       (map (tag ''gm'') (mod_df example_ops)) \<and>
   map met_specs (snd (eval_loop 1 [(''rout'', ''>'', ''40e3''), (''region'', ''='', ''2'')]
          (map (flagged True) (map (tag ''gm'') (mod_df example_ops))))) = [True, False] \<and>
   fst (compute_conditional_df example_ops [''gm=1.5e-3'', ''rout>3.5e4''] 1 (5 / 10) (100 / 10 ^ 6)) =
     Inr () \<and>
   (\<exists>acc. resize_loop example_ops (5 / 10) (100 / 10 ^ 6)
             [(''gm'', ''='', ''1.5e-3''), (''rout'', ''>'', ''3.5e4'')] [] False = (None, acc, True) \<and>
      conditional_df (snd (compute_conditional_df example_ops [''gm=1.5e-3'', ''rout>3.5e4'']
         1 (5 / 10) (100 / 10 ^ 6))) =
        Flagged (map (\<lambda>r. flagged (\<forall>c \<in> set [(''gm'', ''='', ''1.5e-3''), (''rout'', ''>'', ''3.5e4'')].
                                      condition_holds 1 c (add_area r)) (add_area r)) acc)) \<and>
   (case conditional_df (snd (compute_conditional_df example_ops [''gm=1.5e-3'', ''rout>3.5e4'']
         1 (5 / 10) (100 / 10 ^ 6))) of
      Flagged tbl \<Rightarrow> map met_specs tbl
    | _ \<Rightarrow> []) = [False, True, False, False]"
proof -
  let ?ps = "[(''rout'', ''>'', ''40e3''), (''region'', ''='', ''2'')]"
  let ?tbl = "map (tag ''gm'') (mod_df example_ops)"
  let ?ev = "eval_loop 1 ?ps (map (flagged True) ?tbl)"
  let ?cs = "[''gm=1.5e-3'', ''rout>3.5e4'']"
  let ?qs = "[(''gm'', ''='', ''1.5e-3''), (''rout'', ''>'', ''3.5e4'')]"
  let ?res = "compute_conditional_df example_ops ?cs 1 (5 / 10) (100 / 10 ^ 6)"
  note T = met_specs_iff_all_conditions[where p = 1 and ps = ?ps and tbl = ?tbl and tbl' = "snd ?ev"
      and st = example_ops and cs = ?cs and q = 1 and wl = "5 / 10" and wmax = "100 / 10 ^ 6"
      and st' = "snd ?res"]
  have e1: "fst ?ev = None" by code_simp
  then have "?ev = (None, snd ?ev)" by (simp add: prod_eq_iff)
  with T[THEN conjunct1] have e2:
    "snd ?ev = map (\<lambda>r. flagged (\<forall>c \<in> set ?ps. condition_holds 1 c r) r) ?tbl" by blast
  have e3: "map met_specs (snd ?ev) = [True, False]" by code_simp
  have c1: "fst ?res = Inr ()" by code_simp
  then have "?res = (Inr (), snd ?res)" by (simp add: prod_eq_iff)
  with T[THEN conjunct2, THEN conjunct1] obtain qs acc where
    qs: "parse_conditions ?cs = Inr qs" and
    loop: "resize_loop example_ops (5 / 10) (100 / 10 ^ 6) qs [] False = (None, acc, True)" and
    tbl: "conditional_df (snd ?res) =
        Flagged (map (\<lambda>r. flagged (\<forall>c \<in> set qs. condition_holds 1 c (add_area r)) (add_area r)) acc)"
    by blast
  have "parse_conditions ?cs = Inr ?qs" by code_simp
  with qs have "qs = ?qs" by simp
  with loop tbl have c2: "\<exists>acc. resize_loop example_ops (5 / 10) (100 / 10 ^ 6) ?qs [] False =
        (None, acc, True) \<and>
      conditional_df (snd ?res) =
        Flagged (map (\<lambda>r. flagged (\<forall>c \<in> set ?qs. condition_holds 1 c (add_area r)) (add_area r)) acc)"
    by blast
  have c3: "(case conditional_df (snd ?res) of Flagged tbl \<Rightarrow> map met_specs tbl | _ \<Rightarrow> []) =
      [False, True, False, False]" by code_simp
  from e1 e2 e3 c1 c2 c3 show ?thesis by (intro conjI)
qed

section \<open>The geometry filter\<close>

lemma filtered_row_absent_when_some_kept:
  assumes "v \<in> set proportional \<or> v \<in> set inversly"
    and "py_float rhs = Some t"
    and "set_width (mod_df st) (v, opr, rhs) = Inr temp"
    and "i < length temp"
    and "fge (W (temp ! i)) (Fin wmax) \<or> fle (fdiv (W (temp ! i)) (L (temp ! i))) (Fin wl)"
    and "j < length temp" and "contribution st wl wmax v t j \<noteq> None"
  shows "resize_loop st wl wmax ((v, opr, rhs) # cs) acc flag =
           resize_loop st wl wmax cs (acc @ resized st wl wmax v temp) True \<and>
         resized st wl wmax v temp =
           List.map_filter (contribution st wl wmax v t) [0..<length temp] \<and>
         contribution st wl wmax v t i = None"
proof -
  from assms(1) have v: "v \<in> set (proportional @ inversly)" by auto
  have temp: "temp = map (\<lambda>r. r\<lparr>W := new_width v t r\<rparr>) (mod_df st)"
    using set_width_resizable[OF v assms(2), of "mod_df st" opr] assms(3) by simp
  then have len: "length temp = length (mod_df st)" by simp
  have ne: "List.map_filter (contribution st wl wmax v t) [0..<length (mod_df st)] \<noteq> []"
    using assms(6,7) len by (auto simp: map_filter_eq filter_empty_conv)
  have "resized st wl wmax v temp =
           List.map_filter (contribution st wl wmax v t) [0..<length temp]"
    unfolding len unfolding temp resized_rowwise using ne by (simp add: Let_def)
  moreover have "contribution st wl wmax v t i = None"
    using assms(4,5) fge_not_flt fle_not_fgt
    by (auto simp: temp contribution_def Let_def)
  moreover have "resize_loop st wl wmax ((v, opr, rhs) # cs) acc flag =
           resize_loop st wl wmax cs (acc @ resized st wl wmax v temp) True"
    using v assms(3) by simp
  ultimately show ?thesis by simp
qed

text \<open>
  Claim C3. The two filters take out every row whose new width \<open>W'\<close> is at least \<open>Wmax\<close>
  or whose \<open>W' / L\<close> is at most \<open>WoverL_min\<close>, and while some row of the table is left the
  dropped rows add no entry (\<open>filtered_row_absent_when_some_kept\<close>). When the filters
  leave no row, the assignment that follows them brings every row of \<open>self.df\<close> back
  with missing values, and the dropped rows are in the stored table, with \<open>met_specs\<close>
  false. For the example table and the condition \<open>gm=1\<close> at the default arguments both
  new widths are 1e-3, which is not below \<open>Wmax\<close> = 1e-4, and the stored table has two
  rows.
\<close>

theorem dropped_rows_come_back_missing:
  "map (\<lambda>r. new_width ''gm'' 1 r) (mod_df example_ops) = [Fin (1 / 10 ^ 3), Fin (1 / 10 ^ 3)] \<and>
   fge (Fin (1 / 10 ^ 3)) (Fin Wmax_default) \<and>
   compute_conditional_df example_ops [''gm=1''] tolerance_percent_default WoverL_min_default
       Wmax_default =
     (Inr (), example_ops\<lparr>conditional_df := Flagged
        [\<lparr>W = NaN, L = NaN, gm = NaN, gmb = NaN, rout = NaN, cgg = NaN, id_col = NaN,
          extra = [(''region'', NaN), (''intrinsic_gain'', NaN), (''ft'', NaN),
                   (''gmoverid'', NaN), (''area'', NaN)],
          condition = None, met_specs = False\<rparr>,
         \<lparr>W = NaN, L = NaN, gm = NaN, gmb = NaN, rout = NaN, cgg = NaN, id_col = NaN,
          extra = [(''region'', NaN), (''intrinsic_gain'', NaN), (''ft'', NaN),
                   (''gmoverid'', NaN), (''area'', NaN)],
          condition = None, met_specs = False\<rparr>]\<rparr>)"
  by code_simp

section \<open>Resizing a row\<close>

text \<open>
  Claim C1, amended. For a condition on a proportional or inverse variable \<open>v\<close> with
  target \<open>t\<close>, and a row of the table built by the constructor whose width \<open>w\<close> and
  value \<open>x\<close> of \<open>v\<close> are finite and not zero: the loop sets the new width to
  \<open>w * t / x\<close> (to \<open>w * (x / t)\<close> for \<open>rout\<close>); when the row passes the geometry filter,
  its entry has every proportional column multiplied, and \<open>rout\<close> divided, by the new
  width over \<open>w\<close>, the width that \<open>self.df\<close> has for this row; the entry's value of
  \<open>v\<close> is then exactly \<open>t\<close>, in exact arithmetic; and its \<open>area\<close> is the new width
  times \<open>L\<close>.
\<close>

theorem resize_scales_row_to_target:
  assumes v: "v \<in> set proportional \<or> v \<in> set inversly"
    and f: "py_float rhs = Some t"
    and wf: "mod_df st = add_specs_df (df st)"
    and i: "i < length (df st)"
    and w: "W (df st ! i) = Fin w" "w \<noteq> 0"
    and x: "driving v (mod_df st ! i) = Fin x" "x \<noteq> 0"
    and kept: "contribution st wl wmax v t i = Some r'"
  shows "set_width (mod_df st) (v, opr, rhs) =
           Inr (map (\<lambda>r. r\<lparr>W := new_width v t r\<rparr>) (mod_df st)) \<and>
         resized st wl wmax v (map (\<lambda>r. r\<lparr>W := new_width v t r\<rparr>) (mod_df st)) =
           List.map_filter (contribution st wl wmax v t) [0..<length (mod_df st)] \<and>
         W r' = (if v \<in> set proportional then Fin (w * t / x)
                 else fmul (Fin w) (fdiv (Fin x) (Fin t))) \<and>
         cgg r' = fmul (cgg (mod_df st ! i)) (fdiv (W r') (Fin w)) \<and>
         gm r' = fmul (gm (mod_df st ! i)) (fdiv (W r') (Fin w)) \<and>
         gmb r' = fmul (gmb (mod_df st ! i)) (fdiv (W r') (Fin w)) \<and>
         id_col r' = fmul (id_col (mod_df st ! i)) (fdiv (W r') (Fin w)) \<and>
         rout r' = fdiv (rout (mod_df st ! i)) (fdiv (W r') (Fin w)) \<and>
         driving v r' = Fin t \<and>
         cell ''area'' (add_area r') = Some (fmul (W r') (L (mod_df st ! i)))"
proof -
  let ?r = "mod_df st ! i"
  from v have v': "v \<in> set (proportional @ inversly)" by auto
  have Wr: "W ?r = Fin w" using wf i w(1) by (simp add: add_specs_df_W)
  have ow: "original_width (df st) i = Fin w" using i w(1) by (simp add: original_width_def)
  have nw: "new_width v t ?r = (if v \<in> set proportional then Fin (w * t / x)
                 else fmul (Fin w) (fdiv (Fin x) (Fin t)))"
    using Wr x by (simp add: new_width_def)
  from kept have r': "r' = \<lparr>W = new_width v t ?r, L = L ?r,
      gm = fmul (gm ?r) (fdiv (new_width v t ?r) (Fin w)),
      gmb = fmul (gmb ?r) (fdiv (new_width v t ?r) (Fin w)),
      rout = fdiv (rout ?r) (fdiv (new_width v t ?r) (Fin w)),
      cgg = fmul (cgg ?r) (fdiv (new_width v t ?r) (Fin w)),
      id_col = fmul (id_col ?r) (fdiv (new_width v t ?r) (Fin w)),
      extra = extra ?r, condition = Some v\<rparr>"
    by (simp add: contribution_def Let_def ow split: if_splits)
  have target: "driving v r' = Fin t"
  proof (cases "v \<in> set proportional")
    case True
    then have "driving v r' = fmul (driving v ?r) (fdiv (new_width v t ?r) (Fin w))"
      by (auto simp: r' driving_def proportional_def)
    also have "\<dots> = Fin t"
      using rescale_proportional_exact[OF w(2) x(2), of t] True Wr x(1)
      by (simp add: new_width_def)
    finally show ?thesis .
  next
    case False
    with v have inv: "v = ''rout''" by (simp add: inversly_def)
    then have "driving v r' = fdiv (driving v ?r) (fdiv (new_width v t ?r) (Fin w))"
      by (simp add: r' driving_def)
    also have "\<dots> = Fin t"
      using rescale_inverse_exact[OF w(2) x(2), of t] False Wr x(1)
      by (simp add: new_width_def)
    finally show ?thesis .
  qed
  have sw: "set_width (mod_df st) (v, opr, rhs) =
           Inr (map (\<lambda>r. r\<lparr>W := new_width v t r\<rparr>) (mod_df st))"
    by (rule set_width_resizable[OF v' f])
  have "i < length (mod_df st)" using wf i by (simp add: add_specs_df_map)
  with kept have "List.map_filter (contribution st wl wmax v t) [0..<length (mod_df st)] \<noteq> []"
    by (auto simp: map_filter_eq filter_empty_conv)
  then have rs: "resized st wl wmax v (map (\<lambda>r. r\<lparr>W := new_width v t r\<rparr>) (mod_df st)) =
           List.map_filter (contribution st wl wmax v t) [0..<length (mod_df st)]"
    unfolding resized_rowwise by (simp add: Let_def)
  have fields: "W r' = new_width v t ?r" "L r' = L ?r"
    "cgg r' = fmul (cgg ?r) (fdiv (W r') (Fin w))"
    "gm r' = fmul (gm ?r) (fdiv (W r') (Fin w))"
    "gmb r' = fmul (gmb ?r) (fdiv (W r') (Fin w))"
    "id_col r' = fmul (id_col ?r) (fdiv (W r') (Fin w))"
    "rout r' = fdiv (rout ?r) (fdiv (W r') (Fin w))"
    by (simp_all add: r')
  have area: "cell ''area'' (add_area r') = Some (fmul (W r') (L ?r))"
    by (simp add: cell_add_area fields(2))
  from sw rs fields nw target area show ?thesis by simp
qed

theorem resize_scales_row_to_target_witness:
  "contribution example_ops (5 / 10) (100 / 10 ^ 6) ''gm'' (2 / 10 ^ 3) 0 =
     Some \<lparr>W = Fin (2 / 10 ^ 6), L = Fin (1 / 10 ^ 7), gm = Fin (2 / 10 ^ 3),
            gmb = Fin (4 / 10 ^ 4), rout = Fin 25000, cgg = Fin (2 / 10 ^ 12),
            id_col = Fin (4 / 10 ^ 4), extra = extra (mod_df example_ops ! 0),
            condition = Some ''gm''\<rparr> \<and>
   gm (mod_df example_ops ! 0) = Fin (1 / 10 ^ 3) \<and>
   W (mod_df example_ops ! 0) = Fin (1 / 10 ^ 6) \<and>
   driving ''gm'' \<lparr>W = Fin (2 / 10 ^ 6), L = Fin (1 / 10 ^ 7), gm = Fin (2 / 10 ^ 3),
            gmb = Fin (4 / 10 ^ 4), rout = Fin 25000, cgg = Fin (2 / 10 ^ 12),
            id_col = Fin (4 / 10 ^ 4), extra = extra (mod_df example_ops ! 0),
            condition = Some ''gm''\<rparr> = Fin (2 / 10 ^ 3) \<and>
   cell ''area''
     (add_area \<lparr>W = Fin (2 / 10 ^ 6), L = Fin (1 / 10 ^ 7), gm = Fin (2 / 10 ^ 3),
            gmb = Fin (4 / 10 ^ 4), rout = Fin 25000, cgg = Fin (2 / 10 ^ 12),
            id_col = Fin (4 / 10 ^ 4), extra = extra (mod_df example_ops ! 0),
            condition = Some ''gm''\<rparr>) = Some (Fin (2 / 10 ^ 13))"
proof -
  let ?r' = "\<lparr>W = Fin (2 / 10 ^ 6), L = Fin (1 / 10 ^ 7), gm = Fin (2 / 10 ^ 3),
            gmb = Fin (4 / 10 ^ 4), rout = Fin 25000, cgg = Fin (2 / 10 ^ 12),
            id_col = Fin (4 / 10 ^ 4), extra = extra (mod_df example_ops ! 0),
            condition = Some ''gm''\<rparr>"
  have v: "''gm'' \<in> set proportional \<or> ''gm'' \<in> set inversly"
    by (simp add: proportional_def)
  have f: "py_float ''2e-3'' = Some (2 / 10 ^ 3)" by code_simp
  have wf: "mod_df example_ops = add_specs_df (df example_ops)" by code_simp
  have i: "0 < length (df example_ops)" by code_simp
  have w: "W (df example_ops ! 0) = Fin (1 / 10 ^ 6)" by code_simp
  have w0: "(1 / 10 ^ 6 :: real) \<noteq> 0" by simp
  have x: "driving ''gm'' (mod_df example_ops ! 0) = Fin (1 / 10 ^ 3)" by code_simp
  have x0: "(1 / 10 ^ 3 :: real) \<noteq> 0" by simp
  have k: "contribution example_ops (5 / 10) (100 / 10 ^ 6) ''gm'' (2 / 10 ^ 3) 0 = Some ?r'"
    by code_simp
  have g: "gm (mod_df example_ops ! 0) = Fin (1 / 10 ^ 3)" by code_simp
  have ww: "W (mod_df example_ops ! 0) = Fin (1 / 10 ^ 6)" by code_simp
  have l: "L (mod_df example_ops ! 0) = Fin (1 / 10 ^ 7)" by code_simp
  note T = resize_scales_row_to_target[OF v f wf i w w0 x x0 k, of "''=''"]
  have d: "driving ''gm'' ?r' = Fin (2 / 10 ^ 3)"
    by (rule T[THEN conjunct2, THEN conjunct2, THEN conjunct2, THEN conjunct2, THEN conjunct2,
          THEN conjunct2, THEN conjunct2, THEN conjunct2, THEN conjunct1])
  have a: "cell ''area'' (add_area ?r') = Some (fmul (W ?r') (L (mod_df example_ops ! 0)))"
    by (rule T[THEN conjunct2, THEN conjunct2, THEN conjunct2, THEN conjunct2, THEN conjunct2,
          THEN conjunct2, THEN conjunct2, THEN conjunct2, THEN conjunct2])
  have a': "cell ''area'' (add_area ?r') = Some (Fin (2 / 10 ^ 13))"
    unfolding a l by simp
  from k g ww d a' show ?thesis by (intro conjI)
qed

text \<open>
  Claim C1 as stated, for every row, fails: without the condition on the width the value
  of \<open>v\<close> can miss the target. A row of width zero passes the filter when \<open>WoverL_min\<close>
  is negative; its ratio of widths is \<open>0 / 0\<close>, and every rescaled column, \<open>gm\<close> with
  them, is NaN and not the target 2e-3.
\<close>

theorem zero_width_row_misses_target_counterexample:
  "conditional_df (snd (compute_conditional_df zero_width_ops [''gm=2e-3''] 1 (- 1) (100 / 10 ^ 6))) =
     Flagged [\<lparr>W = Fin 0, L = Fin (1 / 10 ^ 7), gm = NaN, gmb = NaN, rout = NaN, cgg = NaN,
                id_col = NaN,
                extra = AList.update ''area'' (Fin 0) (extra (mod_df zero_width_ops ! 0)),
                condition = Some ''gm'', met_specs = False\<rparr>]"
  by code_simp

section \<open>add_specs_df\<close>

text \<open>
  Claim C8. \<open>add_specs_df\<close> returns the table with the same rows, each extended with
  exactly the columns \<open>intrinsic_gain = gm * rout\<close>, \<open>ft = gm / (2 * math.pi * cgg)\<close> and
  \<open>gmoverid = gm / id\<close> computed from that row; every other column is as it was. A row
  with \<open>gm = 1e-3\<close> and \<open>id = 2e-4\<close> gets \<open>gmoverid = 5\<close>.
\<close>

theorem add_specs_df_columns:
  "length (add_specs_df tbl) = length tbl \<and>
   (\<forall>i < length tbl.
      cell ''intrinsic_gain'' (add_specs_df tbl ! i) = Some (fmul (gm (tbl ! i)) (rout (tbl ! i))) \<and>
      cell ''ft'' (add_specs_df tbl ! i) =
        Some (fdiv (gm (tbl ! i)) (fmul (Fin (2 * math_pi)) (cgg (tbl ! i)))) \<and>
      cell ''gmoverid'' (add_specs_df tbl ! i) = Some (fdiv (gm (tbl ! i)) (id_col (tbl ! i))) \<and>
      (\<forall>name. name \<notin> set [''intrinsic_gain'', ''ft'', ''gmoverid''] \<longrightarrow>
         cell name (add_specs_df tbl ! i) = cell name (tbl ! i)) \<and>
      set (map fst (extra (add_specs_df tbl ! i))) =
        set (map fst (extra (tbl ! i))) \<union> set [''intrinsic_gain'', ''ft'', ''gmoverid''])"
  by (auto simp: add_specs_df_map add_spec_def set_extra_def cell_def update_conv' dom_update)

theorem add_specs_df_columns_witness:
  "gm (df example_ops ! 0) = Fin (1 / 10 ^ 3) \<and> id_col (df example_ops ! 0) = Fin (2 / 10 ^ 4) \<and>
   cell ''gmoverid'' (add_specs_df (df example_ops) ! 0) = Some (Fin 5) \<and>
   cell ''intrinsic_gain'' (add_specs_df (df example_ops) ! 0) = Some (Fin 50) \<and>
   cell ''region'' (add_specs_df (df example_ops) ! 0) = Some (Fin 2)"
proof -
  have l: "0 < length (df example_ops)" by code_simp
  have g: "gm (df example_ops ! 0) = Fin (1 / 10 ^ 3)" by code_simp
  have d: "id_col (df example_ops ! 0) = Fin (2 / 10 ^ 4)" by code_simp
  have r: "rout (df example_ops ! 0) = Fin 50000" by code_simp
  have c: "cell ''region'' (df example_ops ! 0) = Some (Fin 2)" by code_simp
  from add_specs_df_columns[of "df example_ops"] l
  have "cell ''intrinsic_gain'' (add_specs_df (df example_ops) ! 0) =
          Some (fmul (gm (df example_ops ! 0)) (rout (df example_ops ! 0))) \<and>
        cell ''gmoverid'' (add_specs_df (df example_ops) ! 0) =
          Some (fdiv (gm (df example_ops ! 0)) (id_col (df example_ops ! 0))) \<and>
        cell ''region'' (add_specs_df (df example_ops) ! 0) = cell ''region'' (df example_ops ! 0)"
    by simp
  with g d r c show ?thesis by simp
qed

section \<open>The condition parser\<close>

lemma op_not_space: "c \<in> set ''=<>'' \<Longrightarrow> \<not> is_space c"
  by (auto simp: is_space_def)

lemma match_rest_shape:
  assumes "\<forall>x \<in> set b. is_space x" and "c \<in> set ''=<>''" and "\<forall>x \<in> set d. is_space x"
    and "tok \<noteq> []" and "\<forall>x \<in> set tok. \<not> is_space x"
  shows "match_rest (b @ [c] @ d @ tok @ rest) \<noteq> None"
proof -
  have 1: "dropWhile is_space (b @ [c] @ d @ tok @ rest) = c # d @ tok @ rest"
    using assms(1,2) op_not_space by (simp add: dropWhile_append2)
  obtain y ys where tok: "tok = y # ys" using assms(4) by (cases tok) auto
  have 2: "dropWhile is_space (d @ tok @ rest) = tok @ rest"
    using assms(3,5) by (simp add: dropWhile_append2 tok)
  have 3: "takeWhile (\<lambda>c. \<not> is_space c) (tok @ rest) \<noteq> []"
    using assms(5) by (simp add: tok)
  show ?thesis using assms(2) 3 unfolding match_rest_def 1 by (simp add: 2 Let_def)
qed

lemma match_rest_Some:
  assumes "match_rest s = Some (opr, tok)"
  shows "\<exists>b c d rest. s = b @ [c] @ d @ tok @ rest \<and> opr = [c] \<and> (\<forall>x \<in> set b. is_space x) \<and>
           c \<in> set ''=<>'' \<and> (\<forall>x \<in> set d. is_space x) \<and> tok \<noteq> [] \<and>
           (\<forall>x \<in> set tok. \<not> is_space x)"
proof -
  let ?b = "takeWhile is_space s"
  from assms obtain c r where cr: "dropWhile is_space s = c # r" and c: "c \<in> set ''=<>''"
    and opr: "opr = [c]"
    and tok: "tok = takeWhile (\<lambda>c. \<not> is_space c) (dropWhile is_space r)" and ne: "tok \<noteq> []"
    by (auto simp: match_rest_def Let_def split: list.splits if_splits)
  let ?d = "takeWhile is_space r"
  let ?rest = "dropWhile (\<lambda>c. \<not> is_space c) (dropWhile is_space r)"
  have "s = ?b @ dropWhile is_space s" by simp
  also have "\<dots> = ?b @ [c] @ r" by (simp add: cr)
  also have "r = ?d @ dropWhile is_space r" by simp
  also have "dropWhile is_space r = tok @ ?rest" by (simp add: tok)
  finally have "s = ?b @ [c] @ ?d @ tok @ ?rest" by simp
  moreover have "\<forall>x \<in> set ?b. is_space x" "\<forall>x \<in> set ?d. is_space x"
    by (auto dest: set_takeWhileD)
  moreover have "\<forall>x \<in> set tok. \<not> is_space x"
    unfolding tok by (auto dest: set_takeWhileD)
  ultimately show ?thesis using c opr ne by blast
qed

lemma backtrack_finds:
  "1 \<le> k \<Longrightarrow> k \<le> n \<Longrightarrow> match_rest (drop k s) \<noteq> None \<Longrightarrow> backtrack s n \<noteq> None"
proof (induction n)
  case 0
  then show ?case by simp
next
  case (Suc n)
  show ?case
  proof (cases "k = Suc n")
    case True
    with Suc.prems show ?thesis by (auto split: option.splits)
  next
    case False
    with Suc have "backtrack s n \<noteq> None" by simp
    then show ?thesis by (auto split: option.splits)
  qed
qed

lemma backtrack_Some:
  "backtrack s n = Some (g1, opr, tok) \<Longrightarrow>
     \<exists>k. 1 \<le> k \<and> k \<le> n \<and> g1 = take k s \<and> match_rest (drop k s) = Some (opr, tok)"
proof (induction n)
  case 0
  then show ?case by simp
next
  case (Suc n)
  show ?case
  proof (cases "match_rest (drop (Suc n) s)")
    case None
    with Suc show ?thesis by (fastforce simp: le_Suc_eq)
  next
    case (Some a)
    with Suc.prems show ?thesis by (cases a) auto
  qed
qed

text \<open>
  Claim C5, amended. \<open>parse_condition\<close> raises its ValueError exactly when no prefix of
  the text has the shape token, white space, one of \<open>=\<close>, \<open><\<close>, \<open>>\<close>, white space, token,
  where a token is a non-empty run of characters that are not white space (it may
  contain operator characters) and anything may follow the second token. It raises
  nothing else.
\<close>

theorem parse_condition_raises_iff:
  "(parse_condition s = Inl (InvalidConditionFormat s) \<or> (\<exists>groups. parse_condition s = Inr groups)) \<and>
   ((\<exists>groups. parse_condition s = Inr groups) \<longleftrightarrow>
    (\<exists>a b c d tok rest.
        s = a @ b @ [c] @ d @ tok @ rest \<and>
        a \<noteq> [] \<and> (\<forall>x \<in> set a. \<not> is_space x) \<and> (\<forall>x \<in> set b. is_space x) \<and>
        c \<in> set ''=<>'' \<and> (\<forall>x \<in> set d. is_space x) \<and>
        tok \<noteq> [] \<and> (\<forall>x \<in> set tok. \<not> is_space x)))"
proof (intro conjI iffI)
  show "parse_condition s = Inl (InvalidConditionFormat s) \<or> (\<exists>groups. parse_condition s = Inr groups)"
    by (simp add: parse_condition_def split: option.splits)
next
  let ?n = "length (takeWhile (\<lambda>c. \<not> is_space c) s)"
  assume "\<exists>groups. parse_condition s = Inr groups"
  then obtain g1 opr tok where "backtrack s ?n = Some (g1, opr, tok)"
    by (auto simp: parse_condition_def split: option.splits)
  from backtrack_Some[OF this] obtain k where
    k: "1 \<le> k" "k \<le> ?n" and m: "match_rest (drop k s) = Some (opr, tok)" by blast
  from match_rest_Some[OF m] obtain b c d rest where
    d: "drop k s = b @ [c] @ d @ tok @ rest" and
    p: "\<forall>x \<in> set b. is_space x" "c \<in> set ''=<>''" "\<forall>x \<in> set d. is_space x" "tok \<noteq> []"
       "\<forall>x \<in> set tok. \<not> is_space x"
    by blast
  have "take k s = take k (takeWhile (\<lambda>c. \<not> is_space c) s)"
    using k(2) by (metis append_eq_conv_conj append_take_drop_id takeWhile_dropWhile_id take_all take_append min.absorb2 diff_is_0_eq take_0 append_Nil2)
  then have a: "\<forall>x \<in> set (take k s). \<not> is_space x"
    by (metis in_set_takeD set_takeWhileD)
  have ne: "take k s \<noteq> []" using k by auto
  have "s = take k s @ b @ [c] @ d @ tok @ rest"
    using d by (metis append_take_drop_id)
  with a ne p show "\<exists>a b c d tok rest.
        s = a @ b @ [c] @ d @ tok @ rest \<and>
        a \<noteq> [] \<and> (\<forall>x \<in> set a. \<not> is_space x) \<and> (\<forall>x \<in> set b. is_space x) \<and>
        c \<in> set ''=<>'' \<and> (\<forall>x \<in> set d. is_space x) \<and>
        tok \<noteq> [] \<and> (\<forall>x \<in> set tok. \<not> is_space x)"
    by blast
next
  let ?n = "length (takeWhile (\<lambda>c. \<not> is_space c) s)"
  assume "\<exists>a b c d tok rest.
        s = a @ b @ [c] @ d @ tok @ rest \<and>
        a \<noteq> [] \<and> (\<forall>x \<in> set a. \<not> is_space x) \<and> (\<forall>x \<in> set b. is_space x) \<and>
        c \<in> set ''=<>'' \<and> (\<forall>x \<in> set d. is_space x) \<and>
        tok \<noteq> [] \<and> (\<forall>x \<in> set tok. \<not> is_space x)"
  then obtain a b c d tok rest where
    s: "s = a @ b @ [c] @ d @ tok @ rest" and
    a: "a \<noteq> []" "\<forall>x \<in> set a. \<not> is_space x" and
    p: "\<forall>x \<in> set b. is_space x" "c \<in> set ''=<>''" "\<forall>x \<in> set d. is_space x" "tok \<noteq> []"
       "\<forall>x \<in> set tok. \<not> is_space x"
    by blast
  have "takeWhile (\<lambda>c. \<not> is_space c) s = a @ takeWhile (\<lambda>c. \<not> is_space c) (b @ [c] @ d @ tok @ rest)"
    unfolding s using a(2) by (simp add: takeWhile_append2)
  then have le: "length a \<le> ?n" by simp
  have ge: "1 \<le> length a" using a(1) by (cases a) auto
  have "match_rest (drop (length a) s) \<noteq> None"
    using match_rest_shape[OF p] by (simp add: s)
  from backtrack_finds[OF ge le this] show "\<exists>groups. parse_condition s = Inr groups"
    by (auto simp: parse_condition_def split: option.splits)
qed

theorem parse_condition_raises_iff_witness:
  "(\<exists>groups. parse_condition ''rout > 40e3'' = Inr groups) \<and>
   parse_condition ''gm'' = Inl (InvalidConditionFormat ''gm'')"
proof -
  have "''rout > 40e3'' = ''rout'' @ '' '' @ [CHR ''>''] @ '' '' @ ''40e3'' @ []" by simp
  moreover have "''rout'' \<noteq> [] \<and> (\<forall>x \<in> set ''rout''. \<not> is_space x) \<and>
      (\<forall>x \<in> set '' ''. is_space x) \<and> CHR ''>'' \<in> set ''=<>'' \<and>
      ''40e3'' \<noteq> [] \<and> (\<forall>x \<in> set ''40e3''. \<not> is_space x)"
    by (simp add: is_space_def)
  ultimately have "\<exists>a b c d tok rest.
        ''rout > 40e3'' = a @ b @ [c] @ d @ tok @ rest \<and>
        a \<noteq> [] \<and> (\<forall>x \<in> set a. \<not> is_space x) \<and> (\<forall>x \<in> set b. is_space x) \<and>
        c \<in> set ''=<>'' \<and> (\<forall>x \<in> set d. is_space x) \<and>
        tok \<noteq> [] \<and> (\<forall>x \<in> set tok. \<not> is_space x)"
    by blast
  with parse_condition_raises_iff[of "''rout > 40e3''"]
  have 1: "\<exists>groups. parse_condition ''rout > 40e3'' = Inr groups" by blast
  have 2: "parse_condition ''gm'' = Inl (InvalidConditionFormat ''gm'')" by code_simp
  from 1 2 show ?thesis by simp
qed

text \<open>
  Claim C5 as stated fails on \<open>gm>=1\<close>: the first token takes \<open>gm>\<close>, the operator is
  \<open>=\<close>, and the parser returns a triple.
\<close>

theorem parse_condition_accepts_ge_counterexample:
  "parse_condition ''gm>=1'' = Inr (''gm>'', ''='', ''1'')"
  by code_simp

section \<open>The SI codec\<close>

lemma digit_char_cases:
  fixes k :: nat
  assumes "k < 10"
  obtains "k = 0" | "k = 1" | "k = 2" | "k = 3" | "k = 4" | "k = 5" | "k = 6" | "k = 7"
    | "k = 8" | "k = 9"
  using assms by atomize_elim arith

lemma is_digit_digit_char: "k < 10 \<Longrightarrow> is_digit (digit_char k)"
  unfolding is_digit_def digit_char_def by (rule nth_mem) simp

lemma digit_val_digit_char: "k < 10 \<Longrightarrow> digit_val (digit_char k) = k"
  by (erule digit_char_cases) (simp_all add: digit_val_def digit_char_def)

lemma dec_digits: "list_all is_digit (dec n)"
proof (induction n rule: dec.induct)
  case (1 n)
  show ?case
  proof (cases "n < 10")
    case True
    then show ?thesis by (subst dec.simps) (simp add: is_digit_digit_char)
  next
    case False
    with 1 show ?thesis by (subst dec.simps) (simp add: is_digit_digit_char)
  qed
qed

lemma dec_nonempty: "dec n \<noteq> []"
  by (subst dec.simps) simp

lemma nat_of_digits_snoc: "nat_of_digits (ds @ [c]) = 10 * nat_of_digits ds + digit_val c"
  by (simp add: nat_of_digits_def)

lemma nat_of_digits_dec: "nat_of_digits (dec n) = n"
proof (induction n rule: dec.induct)
  case (1 n)
  show ?case
  proof (cases "n < 10")
    case True
    then show ?thesis by (subst dec.simps) (simp add: nat_of_digits_def digit_val_digit_char)
  next
    case False
    with 1 have "nat_of_digits (dec (n div 10)) = n div 10" by simp
    with False show ?thesis
      by (subst dec.simps) (simp add: nat_of_digits_snoc digit_val_digit_char)
  qed
qed

lemma nat_of_two_digits:
  "nat_of_digits [digit_char (n mod 100 div 10), digit_char (n mod 10)] = n mod 100"
proof -
  have "n mod 100 div 10 < 10" by simp
  moreover have "n mod 10 < 10" by simp
  ultimately have "nat_of_digits [digit_char (n mod 100 div 10), digit_char (n mod 10)] =
      10 * (n mod 100 div 10) + n mod 10"
    by (simp add: nat_of_digits_def digit_val_digit_char)
  also have "\<dots> = 10 * (n mod 100 div 10) + n mod 100 mod 10"
    by (simp add: mod_mod_cancel)
  also have "\<dots> = n mod 100" by (rule mult_div_mod_eq)
  finally show ?thesis .
qed


lemma takeWhile_digits_stop:
  assumes "list_all is_digit ds" and "\<not> is_digit c"
  shows "takeWhile is_digit (ds @ c # r) = ds" and "dropWhile is_digit (ds @ c # r) = c # r"
  using assms by (simp_all add: list_all_iff takeWhile_append2 dropWhile_append2)

lemma unit_not_digit:
  assumes "u \<in> set (map fst unit_scales)"
  shows "takeWhile is_digit u = []" and "unit_group u = u"
  using assms by (auto simp: unit_scales_def is_digit_def unit_group_def)

lemma digit_not_sign: "is_digit c \<Longrightarrow> c \<noteq> CHR ''-'' \<and> c \<noteq> CHR ''+'' \<and> c \<noteq> CHR ''.''"
  by (auto simp: is_digit_def)

lemma dot_not_digit: "\<not> is_digit CHR ''.''"
  by (simp add: is_digit_def)

lemma match_number_formatted:
  assumes "pre = [] \<or> pre = ''-''" and "is_digit d1" and "is_digit d2"
    and "u \<in> set (map fst unit_scales)"
  shows "match_number (pre @ dec a @ ''.'' @ [d1, d2] @ u) = Some (pre @ dec a @ ''.'' @ [d1, d2], u)"
proof -
  obtain x xs where dec: "dec a = x # xs" using dec_nonempty[of a] by (cases "dec a") auto
  have x: "is_digit x" using dec_digits[of a] by (simp add: dec)
  have split: "(case pre @ dec a @ ''.'' @ [d1, d2] @ u of
                 [] \<Rightarrow> ([], [])
               | c # r \<Rightarrow> if c \<in> set ''-+'' then ([c], r) else ([], pre @ dec a @ ''.'' @ [d1, d2] @ u)) =
               (pre, dec a @ CHR ''.'' # d1 # d2 # u)"
    using assms(1) digit_not_sign[OF x] by (auto simp: dec)
  have t: "takeWhile is_digit (dec a @ CHR ''.'' # d1 # d2 # u) = dec a"
    "dropWhile is_digit (dec a @ CHR ''.'' # d1 # d2 # u) = CHR ''.'' # d1 # d2 # u"
    by (rule takeWhile_digits_stop[OF dec_digits dot_not_digit])+
  have fr: "takeWhile is_digit (d1 # d2 # u) = [d1, d2]"
    using assms(2,3) unit_not_digit(1)[OF assms(4)] by simp
  show ?thesis
    unfolding match_number_def split
    using assms(2,3) unit_not_digit[OF assms(4)] by (simp add: t Let_def)
qed

lemma py_float_formatted:
  assumes "pre = [] \<or> pre = ''-''" and "is_digit d1" and "is_digit d2"
  shows "py_float (pre @ dec a @ ''.'' @ [d1, d2]) =
           Some ((if pre = [] then 1 else - 1) * (real a + real (nat_of_digits [d1, d2]) / 100))"
proof -
  obtain x xs where dec: "dec a = x # xs" using dec_nonempty[of a] by (cases "dec a") auto
  have x: "is_digit x" using dec_digits[of a] by (simp add: dec)
  have split: "split_sign (pre @ dec a @ ''.'' @ [d1, d2]) =
      (if pre = [] then 1 else - 1, dec a @ CHR ''.'' # [d1, d2])"
    using assms(1) digit_not_sign[OF x] by (auto simp: split_sign_def dec)
  have t: "takeWhile is_digit (dec a @ CHR ''.'' # [d1, d2]) = dec a"
    "dropWhile is_digit (dec a @ CHR ''.'' # [d1, d2]) = CHR ''.'' # [d1, d2]"
    by (rule takeWhile_digits_stop[OF dec_digits dot_not_digit])+
  show ?thesis
    unfolding py_float_def split
    using assms(2,3) by (simp add: t Let_def nat_of_digits_dec dec_nonempty)
qed

lemma map_of_units:
  "(u, sc) \<in> set unit_scales \<Longrightarrow> map_of units u = Some sc"
  by (auto simp: unit_scales_def units_def)

lemma py_float_two_decimals:
  assumes "pre = [] \<or> pre = ''-''"
  shows "py_float (pre @ dec (n div 100) @ ''.'' @
            [digit_char (n mod 100 div 10), digit_char (n mod 10)]) =
           Some ((if pre = [] then 1 else - 1) * (real n / 100))"
proof -
  have d: "is_digit (digit_char (n mod 100 div 10))" "is_digit (digit_char (n mod 10))"
    by (simp_all add: is_digit_digit_char)
  have "real n = 100 * real (n div 100) + real (n mod 100)"
    by (metis mult_div_mod_eq of_nat_add of_nat_mult of_nat_numeral)
  then have "real (n div 100) + real (n mod 100) / 100 = real n / 100" by argo
  then show ?thesis
    unfolding py_float_formatted[OF assms d] nat_of_two_digits by simp
qed

lemma parse_formatted:
  assumes "(u, sc) \<in> set unit_scales"
  shows "parse_from_number (format_2f m @ u) =
           Inr ((if m < 0 then - 1 else 1) * (real (nat (round_half_even (\<bar>m\<bar> * 100))) / 100) * sc)"
proof -
  define n where "n = nat (round_half_even (\<bar>m\<bar> * 100))"
  define pre where "pre = (if m < 0 then ''-'' else [])"
  let ?d1 = "digit_char (n mod 100 div 10)"
  let ?d2 = "digit_char (n mod 10)"
  have f: "format_2f m @ u = pre @ dec (n div 100) @ ''.'' @ [?d1, ?d2] @ u"
    by (simp add: format_2f_def Let_def n_def pre_def)
  have sg: "pre = [] \<or> pre = ''-''" by (simp add: pre_def)
  have d: "is_digit ?d1" "is_digit ?d2" by (simp_all add: is_digit_digit_char)
  have u: "u \<in> set (map fst unit_scales)" using assms by force
  have m: "match_number (format_2f m @ u) = Some (pre @ dec (n div 100) @ ''.'' @ [?d1, ?d2], u)"
    unfolding f by (rule match_number_formatted[OF sg d u])
  have s: "(if pre = [] then 1 else - 1 :: real) = (if m < 0 then - 1 else 1)"
    by (simp add: pre_def)
  have "parse_from_number (format_2f m @ u) =
      Inr ((if pre = [] then 1 else - 1) * (real n / 100) * sc)"
    unfolding parse_from_number_def m option.case prod.case py_float_two_decimals[OF sg]
      map_of_units[OF assms]
    by simp
  then show ?thesis unfolding s n_def .
qed

lemma match_number_unit: "match_number s = Some (g, u) \<Longrightarrow> \<exists>r. u = unit_group r"
  by (auto simp: match_number_def Let_def split: prod.splits if_splits)

lemma invalid_unit_unreachable: "parse_from_number s \<noteq> Inl InvalidUnit"
proof
  assume "parse_from_number s = Inl InvalidUnit"
  then obtain g u where m: "match_number s = Some (g, u)" and n: "map_of units u = None"
    by (auto simp: parse_from_number_def split: option.splits)
  from match_number_unit[OF m] obtain r where "u = unit_group r" ..
  then have "u \<in> fst ` set units"
    by (cases r) (auto simp: unit_group_def units_def)
  with n show False by (simp add: map_of_eq_None_iff)
qed

text \<open>
  Claim C6. \<open>parse_from_number\<close> reads \<open>10k\<close> as 10000 and \<open>2.5u\<close> as 2.5e-6 and
  rejects \<open>bad\<close>, which has no numeric prefix. Text after the numeric prefix that is not
  a unit is not rejected: the pattern matches a prefix of the text and its unit group is
  optional, so \<open>10x\<close> is read as 10 and \<open>1e-6\<close> as 1, and the check that raises
  "Invalid unit in formatted value" can never fail.
\<close>

theorem parse_from_number_ignores_trailing_text:
  "parse_from_number ''10x'' = Inr 10 \<and>
   parse_from_number ''1e-6'' = Inr 1 \<and>
   parse_from_number ''bad'' = Inl InvalidFormattedValue \<and>
   parse_from_number ''10k'' = Inr 10000 \<and>
   parse_from_number ''2.5u'' = Inr (25 / 10 ^ 7)"
  by code_simp

lemma round_half_even_close: "\<bar>real_of_int (round_half_even z) - z\<bar> \<le> 1 / 2"
proof -
  have "real_of_int \<lfloor>z\<rfloor> \<le> z" "z < real_of_int \<lfloor>z\<rfloor> + 1" by linarith+
  then show ?thesis by (auto simp: round_half_even_def Let_def)
qed

lemma round_half_even_nonneg: "0 \<le> z \<Longrightarrow> 0 \<le> round_half_even z"
proof -
  assume "0 \<le> z"
  then have "0 \<le> \<lfloor>z\<rfloor>" by simp
  then show ?thesis by (auto simp: round_half_even_def Let_def)
qed

lemma format_loop_first:
  "format_loop x l = Some s \<Longrightarrow>
     \<exists>pre u sc post. l = pre @ (u, sc) # post \<and> (\<forall>p \<in> set pre. \<not> snd p \<le> \<bar>x\<bar>) \<and>
        (sc \<le> \<bar>x\<bar> \<or> u = ''f'') \<and> s = format_2f (x / sc) @ u"
proof (induction l)
  case Nil
  then show ?case by simp
next
  case (Cons a l)
  obtain u sc where a: "a = (u, sc)" by (cases a)
  show ?case
  proof (cases "sc \<le> \<bar>x\<bar> \<or> u = ''f''")
    case True
    with Cons.prems have "s = format_2f (x / sc) @ u" by (auto simp: a)
    with True have "a # l = [] @ (u, sc) # l \<and> (\<forall>p \<in> set []. \<not> snd p \<le> \<bar>x\<bar>) \<and>
        (sc \<le> \<bar>x\<bar> \<or> u = ''f'') \<and> s = format_2f (x / sc) @ u"
      by (simp add: a)
    then show ?thesis by blast
  next
    case False
    with Cons.prems have "format_loop x l = Some s" by (simp add: a)
    from Cons.IH[OF this] obtain pre u' sc' post where
      l: "l = pre @ (u', sc') # post" and pre: "\<forall>p \<in> set pre. \<not> snd p \<le> \<bar>x\<bar>" and
      r: "sc' \<le> \<bar>x\<bar> \<or> u' = ''f''" "s = format_2f (x / sc') @ u'"
      by blast
    have "a # l = (a # pre) @ (u', sc') # post" by (simp add: l)
    moreover have "\<forall>p \<in> set (a # pre). \<not> snd p \<le> \<bar>x\<bar>" using pre False by (simp add: a)
    ultimately show ?thesis using r by blast
  qed
qed

lemma format_loop_returns:
  "\<exists>p \<in> set l. fst p = ''f'' \<Longrightarrow> \<exists>s. format_loop x l = Some s"
  by (induction l) force+

lemma unit_scales_sorted: "sorted_wrt (\<lambda>p q. snd q \<le> snd p) unit_scales"
  by (simp add: unit_scales_def)

lemma unit_scales_f: "(''f'', sc) \<in> set unit_scales \<Longrightarrow> sc = 1 / 10 ^ 15"
  by (simp add: unit_scales_def)

lemma unit_scales_pos: "(u, sc) \<in> set unit_scales \<Longrightarrow> 0 < sc"
  by (auto simp: unit_scales_def)

lemma format_with_units_scale:
  assumes "1 / 10 ^ 15 \<le> \<bar>x\<bar>"
  shows "\<exists>u sc. (u, sc) \<in> set unit_scales \<and> 0 < sc \<and> sc \<le> \<bar>x\<bar> \<and>
           (\<forall>p \<in> set unit_scales. snd p \<le> \<bar>x\<bar> \<longrightarrow> snd p \<le> sc) \<and>
           format_with_units x = Some (format_2f (x / sc) @ u)"
proof -
  have "\<exists>p \<in> set unit_scales. fst p = ''f''" by (simp add: unit_scales_def)
  from format_loop_returns[OF this] obtain s where s: "format_loop x unit_scales = Some s"
    by blast
  from format_loop_first[OF s] obtain pre u sc post where
    l: "unit_scales = pre @ (u, sc) # post" and pre: "\<forall>p \<in> set pre. \<not> snd p \<le> \<bar>x\<bar>" and
    r: "sc \<le> \<bar>x\<bar> \<or> u = ''f''" and fs: "s = format_2f (x / sc) @ u"
    by blast
  have mem: "(u, sc) \<in> set unit_scales" by (simp add: l)
  have le: "sc \<le> \<bar>x\<bar>"
  proof (cases "u = ''f''")
    case True
    with mem unit_scales_f have "sc = 1 / 10 ^ 15" by simp
    with assms show ?thesis by simp
  next
    case False
    with r show ?thesis by simp
  qed
  have post: "\<forall>q \<in> set post. snd q \<le> sc"
    using unit_scales_sorted unfolding l by (simp add: sorted_wrt_append)
  have "\<forall>p \<in> set unit_scales. snd p \<le> \<bar>x\<bar> \<longrightarrow> snd p \<le> sc"
    unfolding l using pre post by auto
  with mem le unit_scales_pos[OF mem] s fs show ?thesis
    by (auto simp: format_with_units_def)
qed

text \<open>
  Claim C7. For every \<open>x\<close> with \<open>|x|\<close> from 1e-15 to 1e12, \<open>format_with_units\<close> returns
  the mantissa \<open>x / scale\<close> with two decimals followed by the unit, for the largest scale
  of the list that is at most \<open>|x|\<close>; \<open>parse_from_number\<close> reads that text back, and the
  number it returns differs from \<open>x\<close> by at most 0.5 percent of \<open>|x|\<close>.
\<close>

theorem format_parse_roundtrip:
  assumes "1 / 10 ^ 15 \<le> \<bar>x\<bar>" and "\<bar>x\<bar> \<le> 10 ^ 12"
  shows "\<exists>u sc y. (u, sc) \<in> set unit_scales \<and> sc \<le> \<bar>x\<bar> \<and>
           (\<forall>p \<in> set unit_scales. snd p \<le> \<bar>x\<bar> \<longrightarrow> snd p \<le> sc) \<and>
           format_with_units x = Some (format_2f (x / sc) @ u) \<and>
           parse_from_number (format_2f (x / sc) @ u) = Inr y \<and>
           \<bar>y - x\<bar> \<le> 5 / 1000 * \<bar>x\<bar>"
proof -
  from format_with_units_scale[OF assms(1)] obtain u sc where
    us: "(u, sc) \<in> set unit_scales" and sc: "0 < sc" "sc \<le> \<bar>x\<bar>" and
    mx: "\<forall>p \<in> set unit_scales. snd p \<le> \<bar>x\<bar> \<longrightarrow> snd p \<le> sc" and
    fmt: "format_with_units x = Some (format_2f (x / sc) @ u)"
    by blast
  define m where "m = x / sc"
  define z where "z = \<bar>m\<bar> * 100"
  define n where "n = nat (round_half_even z)"
  define sg :: real where "sg = (if m < 0 then - 1 else 1)"
  define y where "y = sg * (real n / 100) * sc"
  have p: "parse_from_number (format_2f (x / sc) @ u) = Inr y"
    unfolding y_def sg_def n_def z_def m_def by (rule parse_formatted[OF us])
  have "0 \<le> z" by (simp add: z_def)
  then have "real n = real_of_int (round_half_even z)"
    using round_half_even_nonneg[of z] by (simp add: n_def)
  with round_half_even_close[of z] have c: "\<bar>real n - z\<bar> \<le> 1 / 2" by simp
  have "m * sc = x" using sc(1) by (simp add: m_def)
  moreover have "sg * \<bar>m\<bar> = m" by (simp add: sg_def)
  ultimately have x: "x = sg * \<bar>m\<bar> * sc" by simp
  have e: "y - x = sg * (sc * ((real n - z) / 100))"
    by (subst x) (simp add: y_def z_def field_simps)
  have sg1: "\<bar>sg\<bar> = 1" by (simp add: sg_def)
  have "\<bar>y - x\<bar> = \<bar>sg\<bar> * (\<bar>sc\<bar> * (\<bar>real n - z\<bar> / \<bar>100\<bar>))"
    unfolding e abs_mult abs_divide ..
  also have "\<dots> = sc * (\<bar>real n - z\<bar> / 100)"
    using sc(1) by (simp add: sg1)
  also have "\<dots> \<le> sc * ((1 / 2) / 100)"
    using c sc(1) by (intro mult_left_mono divide_right_mono) simp_all
  also have "\<dots> \<le> \<bar>x\<bar> * ((1 / 2) / 100)"
    using sc(2) by (intro mult_right_mono) simp_all
  finally have "\<bar>y - x\<bar> \<le> 5 / 1000 * \<bar>x\<bar>" by simp
  with us sc(2) mx fmt p show ?thesis by blast
qed

theorem format_parse_roundtrip_witness:
  "1 / 10 ^ 15 \<le> \<bar>10000 :: real\<bar> \<and> \<bar>10000 :: real\<bar> \<le> 10 ^ 12 \<and>
   format_with_units 10000 = Some ''10.00k'' \<and>
   (\<exists>y. parse_from_number ''10.00k'' = Inr y \<and> \<bar>y - 10000\<bar> \<le> 5 / 1000 * \<bar>10000\<bar>)"
proof -
  have a: "1 / 10 ^ 15 \<le> \<bar>10000 :: real\<bar>" "\<bar>10000 :: real\<bar> \<le> 10 ^ 12" by simp_all
  have f: "format_with_units 10000 = Some ''10.00k''" by code_simp
  from format_parse_roundtrip[OF a] obtain u sc y where
    "format_with_units 10000 = Some (format_2f (10000 / sc) @ u)"
    "parse_from_number (format_2f (10000 / sc) @ u) = Inr y"
    "\<bar>y - 10000\<bar> \<le> 5 / 1000 * \<bar>10000\<bar>"
    by blast
  with f have "parse_from_number ''10.00k'' = Inr y \<and> \<bar>y - 10000\<bar> \<le> 5 / 1000 * \<bar>10000\<bar>"
    by simp
  with a f show ?thesis by blast
qed

section \<open>Calls on the heap\<close>

lemma lookup_append: "a < length h \<Longrightarrow> lookup (h @ ys) a = lookup h a"
  by (simp add: lookup_def nth_append)

lemma lookup_SomeD: "lookup h a = Some x \<Longrightarrow> a < length h \<and> h ! a = x"
  by (simp add: lookup_def split: if_splits)

lemma lookup_prefix:
  "take (length h) h' = h \<Longrightarrow> a < length h \<Longrightarrow> lookup h' a = lookup h a"
  by (metis append_take_drop_id lookup_append)

lemma resize_step_cases:
  assumes m: "lookup h (mod_df_ref self) = Some (Base (mod_df st))"
    and d: "lookup h (df_ref self) = Some (Base (df st))"
    and c: "lookup h c = Some (Result (Accum acc))"
    and r: "resize_step self wl wmax p h c flag = (err, h', c', flag')"
  shows "take (length h) h' = h \<and> length h \<le> length h' \<and> (c' = c \<or> length h \<le> c') \<and>
         (\<exists>acc'. lookup h' c' = Some (Result (Accum acc')) \<and>
            resize_loop st wl wmax (p # ps) acc flag =
              (case err of Some e \<Rightarrow> (Some e, acc', flag')
               | None \<Rightarrow> resize_loop st wl wmax ps acc' flag'))"
proof (cases "set_width (mod_df st) p")
  case (Inl e)
  with m d c r have "err = Some e" "h' = h @ [Base (mod_df st)]" "c' = c" "flag' = flag"
    by (simp_all add: resize_step_def alloc_def)
  with Inl c lookup_SomeD[OF c] show ?thesis by (auto simp: lookup_def nth_append)
next
  case (Inr temp)
  show ?thesis
  proof (cases "fst p \<in> set (proportional @ inversly)")
    case False
    with Inr m d c r have "err = None" "h' = h @ [Base temp]" "c' = c" "flag' = flag"
      by (simp_all add: resize_step_def alloc_def Let_def)
    with Inr False c lookup_SomeD[OF c] show ?thesis by (auto simp: lookup_def nth_append)
  next
    case True
    with Inr m d c r obtain ys where
      e: "err = None" and h': "h' = h @ ys @ [Result (Accum (acc @ resized st wl wmax (fst p) temp))]"
      and c': "c' = length h + length ys" and f: "flag' = True"
      by (auto simp: resize_step_def alloc_def Let_def resized_def)
    have "lookup h' c' = Some (Result (Accum (acc @ resized st wl wmax (fst p) temp)))"
      by (simp add: h' c' lookup_def nth_append)
    with e h' c' f Inr True show ?thesis by auto
  qed
qed


lemma lookup_update:
  "lookup (h[c := v]) a = (if a = c \<and> c < length h then Some v else lookup h a)"
  by (simp add: lookup_def)

lemma resize_loop_heap_refines:
  assumes "lookup h (mod_df_ref self) = Some (Base (mod_df st))"
    and "lookup h (df_ref self) = Some (Base (df st))"
    and "lookup h c = Some (Result (Accum acc))"
    and "resize_loop_heap self wl wmax ps h c flag = (err, h', c', flag')"
  shows "take (length h) h' = h \<and> length h \<le> length h' \<and> (c' = c \<or> length h \<le> c') \<and>
         (\<exists>acc'. lookup h' c' = Some (Result (Accum acc')) \<and>
            resize_loop st wl wmax ps acc flag = (err, acc', flag'))"
  using assms
proof (induction ps arbitrary: h c flag acc)
  case Nil
  then show ?case by simp
next
  case (Cons p ps)
  obtain e1 h1 c1 f1 where step: "resize_step self wl wmax p h c flag = (e1, h1, c1, f1)"
    by (metis prod_cases4)
  from resize_step_cases[OF Cons.prems(1,2,3) step, of ps] obtain acc1 where
    pre: "take (length h) h1 = h" and len: "length h \<le> length h1" and
    c1: "c1 = c \<or> length h \<le> c1" and
    l1: "lookup h1 c1 = Some (Result (Accum acc1))" and
    pure: "resize_loop st wl wmax (p # ps) acc flag =
              (case e1 of Some e \<Rightarrow> (Some e, acc1, f1)
               | None \<Rightarrow> resize_loop st wl wmax ps acc1 f1)"
    by blast
  show ?case
  proof (cases e1)
    case (Some e)
    with Cons.prems(4) step have "err = Some e" "h' = h1" "c' = c1" "flag' = f1" by simp_all
    with pre len c1 l1 pure Some show ?thesis by simp
  next
    case None
    with Cons.prems(4) step have rest: "resize_loop_heap self wl wmax ps h1 c1 f1 = (err, h', c', flag')"
      by simp
    have m1: "lookup h1 (mod_df_ref self) = Some (Base (mod_df st))"
      using lookup_prefix[OF pre] lookup_SomeD[OF Cons.prems(1)] Cons.prems(1) by simp
    have d1: "lookup h1 (df_ref self) = Some (Base (df st))"
      using lookup_prefix[OF pre] lookup_SomeD[OF Cons.prems(2)] Cons.prems(2) by simp
    from Cons.IH[OF m1 d1 l1 rest] obtain acc' where
      pre': "take (length h1) h' = h1" and len': "length h1 \<le> length h'" and
      c': "c' = c1 \<or> length h1 \<le> c'" and
      l': "lookup h' c' = Some (Result (Accum acc'))" and
      pure': "resize_loop st wl wmax ps acc1 f1 = (err, acc', flag')"
      by blast
    have "take (length h) h' = take (length h) (take (length h1) h')"
      using len by (simp add: min.absorb1)
    then have "take (length h) h' = h" by (simp add: pre' pre)
    moreover have "c' = c \<or> length h \<le> c'" using c1 c' len by auto
    ultimately show ?thesis using len len' l' pure pure' None by auto
  qed
qed

lemma compute_heap_refines:
  assumes v: "view h self = Some st"
    and r: "compute_conditional_df_heap h self cs p wl wmax = (res, h', self')"
  shows "take (length h) h' = h \<and> df_ref self' = df_ref self \<and>
         mod_df_ref self' = mod_df_ref self \<and>
         res = fst (compute_conditional_df st cs p wl wmax) \<and>
         view h' self' = Some (snd (compute_conditional_df st cs p wl wmax))"
proof (cases "parse_conditions cs")
  case (Inl e)
  with v r show ?thesis
    by (simp add: compute_conditional_df_heap_def compute_conditional_df_def)
next
  case (Inr ps)
  from v have m: "lookup h (mod_df_ref self) = Some (Base (mod_df st))"
    and d: "lookup h (df_ref self) = Some (Base (df st))"
    by (auto simp: view_def split: option.splits obj.splits)
  let ?h0 = "h @ [Result (Accum [])]"
  let ?c0 = "length h"
  have m0: "lookup ?h0 (mod_df_ref self) = Some (Base (mod_df st))"
    using m lookup_SomeD[OF m] by (simp add: lookup_append)
  have d0: "lookup ?h0 (df_ref self) = Some (Base (df st))"
    using d lookup_SomeD[OF d] by (simp add: lookup_append)
  have c0: "lookup ?h0 ?c0 = Some (Result (Accum []))" by (simp add: lookup_def)
  obtain err h1 c flag where loop:
    "resize_loop_heap self wl wmax ps ?h0 ?c0 False = (err, h1, c, flag)"
    by (metis prod_cases4)
  from resize_loop_heap_refines[OF m0 d0 c0 loop] obtain acc where
    pre: "take (length ?h0) h1 = ?h0" and c: "c = ?c0 \<or> length ?h0 \<le> c" and
    l: "lookup h1 c = Some (Result (Accum acc))" and
    pure: "resize_loop st wl wmax ps [] False = (err, acc, flag)"
    by blast
  have ge: "length h \<le> c" using c by auto
  have lt: "c < length h1" using lookup_SomeD[OF l] by simp
  have "h1 = ?h0 @ drop (length ?h0) h1"
    using pre by (metis append_take_drop_id)
  then obtain ys where "h1 = h @ ys" by (metis append.assoc)
  then have pre1: "take (length h) h1 = h" by simp
  have pre2: "take (length h) (h1[c := x]) = h" for x
    using ge pre1 by simp
  have pre3: "take (length h) (h1[c := x, c := y]) = h" for x y
    using ge pre1 by simp
  have m1: "lookup h1 (mod_df_ref self) = Some (Base (mod_df st))"
    using lookup_prefix[OF pre1] lookup_SomeD[OF m] m by simp
  have d1: "lookup h1 (df_ref self) = Some (Base (df st))"
    using lookup_prefix[OF pre1] lookup_SomeD[OF d] d by simp
  have ne: "mod_df_ref self \<noteq> c" "df_ref self \<noteq> c"
    using ge lookup_SomeD[OF m] lookup_SomeD[OF d] by auto
  show ?thesis
    using r Inr loop l pure pre1 pre2 pre3 m1 d1 ne lt
    by (auto simp: compute_conditional_df_heap_def compute_conditional_df_def alloc_def Let_def
        view_def lookup_update split: option.splits prod.splits if_splits)
qed

text \<open>
  Claim C9. A call of \<open>compute_conditional_df\<close>, whatever its conditions and however it
  ends, changes no object that existed before it: every assignment to a column goes to a
  frame the call has built itself (a copy, a filtered frame, a concatenation). The frames
  of \<open>mod_df\<close> and \<open>df\<close> are therefore as they were and the attributes still refer to
  them, so a second call on the same object starts from the same base table and ends as
  it would have on the object before the first call.
\<close>

theorem compute_leaves_base_table:
  assumes "view h self = Some st"
    and "compute_conditional_df_heap h self cs p wl wmax = (res, h', self')"
  shows "(\<forall>a < length h. lookup h' a = lookup h a) \<and>
         mod_df_ref self' = mod_df_ref self \<and> df_ref self' = df_ref self \<and>
         lookup h' (mod_df_ref self') = Some (Base (mod_df st)) \<and>
         lookup h' (df_ref self') = Some (Base (df st)) \<and>
         res = fst (compute_conditional_df st cs p wl wmax) \<and>
         view h' self' = Some (snd (compute_conditional_df st cs p wl wmax)) \<and>
         mod_df (snd (compute_conditional_df st cs p wl wmax)) = mod_df st \<and>
         fst (compute_conditional_df (snd (compute_conditional_df st cs p wl wmax)) cs' p' wl' wmax') =
           fst (compute_conditional_df st cs' p' wl' wmax')"
proof -
  from compute_heap_refines[OF assms] have
    pre: "take (length h) h' = h" and
    refs: "df_ref self' = df_ref self" "mod_df_ref self' = mod_df_ref self" and
    res: "res = fst (compute_conditional_df st cs p wl wmax)" and
    v: "view h' self' = Some (snd (compute_conditional_df st cs p wl wmax))"
    by simp_all
  from assms(1) have m: "lookup h (mod_df_ref self) = Some (Base (mod_df st))"
    and d: "lookup h (df_ref self) = Some (Base (df st))"
    by (auto simp: view_def split: option.splits obj.splits)
  have same: "\<forall>a < length h. lookup h' a = lookup h a"
    using lookup_prefix[OF pre] by simp
  have m': "lookup h' (mod_df_ref self') = Some (Base (mod_df st))"
    using same m lookup_SomeD[OF m] refs by simp
  have d': "lookup h' (df_ref self') = Some (Base (df st))"
    using same d lookup_SomeD[OF d] refs by simp
  have second: "fst (compute_conditional_df (snd (compute_conditional_df st cs p wl wmax))
        cs' p' wl' wmax') = fst (compute_conditional_df st cs' p' wl' wmax')"
    using compute_second_call[of st cs p wl wmax cs' p' wl' wmax'] by simp
  from same refs m' d' res v second show ?thesis by (simp add: compute_frame)
qed

theorem compute_leaves_base_table_witness:
  "view example_heap example_refs = Some example_ops \<and>
   fst (compute_conditional_df_heap example_heap example_refs [''gm=2e-3''] 1 (5 / 10) (100 / 10 ^ 6)) =
     Inr () \<and>
   lookup (fst (snd (compute_conditional_df_heap example_heap example_refs [''gm=2e-3'']
       1 (5 / 10) (100 / 10 ^ 6)))) 1 = Some (Base (mod_df example_ops)) \<and>
   lookup (fst (snd (compute_conditional_df_heap example_heap example_refs [''gm=2e-3'']
       1 (5 / 10) (100 / 10 ^ 6)))) 0 = Some (Base (df example_ops))"
proof -
  let ?R = "compute_conditional_df_heap example_heap example_refs [''gm=2e-3''] 1 (5 / 10) (100 / 10 ^ 6)"
  have v: "view example_heap example_refs = Some example_ops" by code_simp
  have r: "?R = (fst ?R, fst (snd ?R), snd (snd ?R))" by simp
  have f: "fst ?R = Inr ()" by code_simp
  note T = compute_leaves_base_table[OF v r]
  have m: "mod_df_ref (snd (snd ?R)) = mod_df_ref example_refs"
    by (rule T[THEN conjunct2, THEN conjunct1])
  have d: "df_ref (snd (snd ?R)) = df_ref example_refs"
    by (rule T[THEN conjunct2, THEN conjunct2, THEN conjunct1])
  have lm: "lookup (fst (snd ?R)) (mod_df_ref (snd (snd ?R))) = Some (Base (mod_df example_ops))"
    by (rule T[THEN conjunct2, THEN conjunct2, THEN conjunct2, THEN conjunct1])
  have ld: "lookup (fst (snd ?R)) (df_ref (snd (snd ?R))) = Some (Base (df example_ops))"
    by (rule T[THEN conjunct2, THEN conjunct2, THEN conjunct2, THEN conjunct2, THEN conjunct1])
  have refs: "mod_df_ref example_refs = 1" "df_ref example_refs = 0"
    by (simp_all add: example_refs_def)
  have lm': "lookup (fst (snd ?R)) 1 = Some (Base (mod_df example_ops))"
    using lm unfolding m refs .
  have ld': "lookup (fst (snd ?R)) 0 = Some (Base (df example_ops))"
    using ld unfolding d refs .
  from v f lm' ld' show ?thesis by (intro conjI)
qed

end
